theory Spec2Isabelle
  imports Complex_Main "HOL-Library.AList"
begin

section \<open>Event-name sanitization\<close>

text \<open>
  A JavaScript string is a sequence of UTF-16 code units; a code unit is modelled as a
  natural number. \<open>units\<close> turns an ASCII literal into its code units, so that the
  examples below can be read.
\<close>

type_synonym jsstring = "nat list"

definition units :: "string \<Rightarrow> jsstring" where
  "units s = map of_char s"

text \<open>
  \<open>String.prototype.toLowerCase\<close>. The letters A to Z go to a to z. Two code units
  beyond ASCII have a lower-case form that contains an ASCII letter: U+0130 (capital I
  with dot above) becomes \<open>i\<close> followed by U+0307, and U+212A (the Kelvin sign) becomes
  \<open>k\<close>. Every other code unit beyond ASCII is lower-cased by the platform to code units
  beyond ASCII again; the model leaves such a unit in place, and the replacement that
  follows turns it into an underscore in either case.
\<close>

definition lowerUnit :: "nat \<Rightarrow> nat list" where
  "lowerUnit u =
     (if 65 \<le> u \<and> u \<le> 90 then [u + 32]
      else if u = 304 then [105, 775]
      else if u = 8490 then [107]
      else [u])"

definition toLowerCase :: "jsstring \<Rightarrow> jsstring" where
  "toLowerCase s = concat (map lowerUnit s)"

text \<open>The character class \<open>[a-z0-9_]\<close> and \<open>.replace(/[^a-z0-9_]/g, '_')\<close>.\<close>

definition inClass :: "nat \<Rightarrow> bool" where
  "inClass u = ((97 \<le> u \<and> u \<le> 122) \<or> (48 \<le> u \<and> u \<le> 57) \<or> u = 95)"

definition replaceOutside :: "jsstring \<Rightarrow> jsstring" where
  "replaceOutside s = map (\<lambda>u. if inClass u then u else 95) s"

text \<open>\<open>.replace(/_+/g, '_')\<close>: every maximal run of underscores becomes one underscore.\<close>

fun collapseUnderscores :: "jsstring \<Rightarrow> jsstring" where
  "collapseUnderscores [] = []"
| "collapseUnderscores [x] = [x]"
| "collapseUnderscores (x # y # xs) =
     (if x = 95 \<and> y = 95 then collapseUnderscores (y # xs)
      else x # collapseUnderscores (y # xs))"

text \<open>
  \<open>String.prototype.trim\<close> removes white space and line terminators from both ends:
  U+0009 to U+000D, U+0020, U+00A0, U+1680, U+2000 to U+200A, U+2028, U+2029, U+202F,
  U+205F, U+3000 and U+FEFF. It removes no underscore.
\<close>

definition isWhiteSpace :: "nat \<Rightarrow> bool" where
  "isWhiteSpace u =
     ((9 \<le> u \<and> u \<le> 13) \<or> u = 32 \<or> u = 160 \<or> u = 5760 \<or> (8192 \<le> u \<and> u \<le> 8202)
      \<or> u = 8232 \<or> u = 8233 \<or> u = 8239 \<or> u = 8287 \<or> u = 12288 \<or> u = 65279)"

definition trim :: "jsstring \<Rightarrow> jsstring" where
  "trim s = rev (dropWhile isWhiteSpace (rev (dropWhile isWhiteSpace s)))"

definition sanitizeEventName :: "jsstring \<Rightarrow> jsstring" where
  "sanitizeEventName event =
     trim (collapseUnderscores (replaceOutside (toLowerCase event)))"

text \<open>The two shapes the claims speak of: no doubled underscore, and the ends.\<close>

fun noDoubleUnderscore :: "jsstring \<Rightarrow> bool" where
  "noDoubleUnderscore [] = True"
| "noDoubleUnderscore [x] = True"
| "noDoubleUnderscore (x # y # xs) =
     (\<not> (x = 95 \<and> y = 95) \<and> noDoubleUnderscore (y # xs))"

definition leadingUnderscore :: "jsstring \<Rightarrow> bool" where
  "leadingUnderscore s = (case s of [] \<Rightarrow> False | x # _ \<Rightarrow> x = 95)"

definition trailingUnderscore :: "jsstring \<Rightarrow> bool" where
  "trailingUnderscore s = leadingUnderscore (rev s)"

section \<open>Configuration values and \<open>mergeConfig\<close>\<close>

text \<open>
  The values a configuration is made of: \<open>undefined\<close>, \<open>null\<close>, booleans, numbers
  (the integers; fractions and \<open>NaN\<close> are not modelled), strings, arrays and plain
  objects. A property key is a string; a key that is an array index is kept apart as
  \<open>PIdx\<close>, so that the elements of arrays and the characters of strings have keys.
  An object is the list of its own properties, with distinct keys; the properties below
  read an object through \<open>map_of\<close>, so that the order of the list plays no part.
  Functions, accessors and properties inherited from a prototype are outside the model,
  and so are objects with a key that names a member of \<open>Object.prototype\<close>.
\<close>

datatype pkey = PName string | PIdx nat

datatype jsval =
    JUndefined
  | JNull
  | JBool bool
  | JNum int
  | JStr jsstring
  | JArr "jsval list"
  | JObj "(pkey \<times> jsval) list"

text \<open>What a call may throw: a \<open>TypeError\<close> of the language, or whatever the collector throws.\<close>

datatype jserror = TypeError | CollectorError

text \<open>\<open>typeof v === 'object'\<close> holds of \<open>null\<close>, of arrays and of objects.\<close>

fun typeofObject :: "jsval \<Rightarrow> bool" where
  "typeofObject JNull = True"
| "typeofObject (JArr xs) = True"
| "typeofObject (JObj ps) = True"
| "typeofObject v = False"

fun isArray :: "jsval \<Rightarrow> bool" where
  "isArray (JArr xs) = True"
| "isArray v = False"

text \<open>Truthiness, as \<open>||\<close> tests it.\<close>

fun truthy :: "jsval \<Rightarrow> bool" where
  "truthy JUndefined = False"
| "truthy JNull = False"
| "truthy (JBool b) = b"
| "truthy (JNum n) = (n \<noteq> 0)"
| "truthy (JStr s) = (s \<noteq> [])"
| "truthy (JArr xs) = True"
| "truthy (JObj ps) = True"

text \<open>
  The own enumerable properties of a value, which both the spread \<open>{ ...v }\<close> and
  \<open>for (const key in v)\<close> go through: the properties of an object, the elements of an
  array, the characters of a string, and nothing for the other values.
\<close>

fun ownEntries :: "jsval \<Rightarrow> (pkey \<times> jsval) list" where
  "ownEntries (JObj ps) = ps"
| "ownEntries (JArr xs) = zip (map PIdx [0..<length xs]) xs"
| "ownEntries (JStr s) = zip (map PIdx [0..<length s]) (map (\<lambda>c. JStr [c]) s)"
| "ownEntries v = []"

text \<open>
  The property read \<open>v[key]\<close>. It throws on \<open>undefined\<close> and \<open>null\<close>; arrays and
  strings have \<open>length\<close> besides their indices.
\<close>

fun getProp :: "jsval \<Rightarrow> pkey \<Rightarrow> jserror + jsval" where
  "getProp JUndefined k = Inl TypeError"
| "getProp JNull k = Inl TypeError"
| "getProp (JObj ps) k = Inr (case map_of ps k of Some v \<Rightarrow> v | None \<Rightarrow> JUndefined)"
| "getProp (JArr xs) k =
     Inr (case k of
            PIdx i \<Rightarrow> if i < length xs then xs ! i else JUndefined
          | PName n \<Rightarrow> if n = ''length'' then JNum (int (length xs)) else JUndefined)"
| "getProp (JStr s) k =
     Inr (case k of
            PIdx i \<Rightarrow> if i < length s then JStr [s ! i] else JUndefined
          | PName n \<Rightarrow> if n = ''length'' then JNum (int (length s)) else JUndefined)"
| "getProp v k = Inr JUndefined"

text \<open>\<open>v || {}\<close>.\<close>

definition orEmpty :: "jsval \<Rightarrow> jsval" where
  "orEmpty v = (if truthy v then v else JObj [])"

text \<open>
  \<open>mergeConfig\<close>: the spread of the defaults, then one assignment \<open>merged[key] = ...\<close>
  for each key of the user's configuration. The assignment replaces the value of a key
  that is there and appends a new key (\<open>AList.update\<close>).
\<close>

function mergeConfig :: "jsval \<Rightarrow> jsval \<Rightarrow> jserror + jsval" where
  "mergeConfig default_config user_config =
     (case fold (\<lambda>kv acc.
             case acc of
               Inl e \<Rightarrow> Inl e
             | Inr merged \<Rightarrow>
                 if typeofObject (snd kv) \<and> \<not> isArray (snd kv) then
                   (case getProp default_config (fst kv) of
                      Inl e \<Rightarrow> Inl e
                    | Inr d \<Rightarrow>
                        (case mergeConfig (orEmpty d) (snd kv) of
                           Inl e \<Rightarrow> Inl e
                         | Inr r \<Rightarrow> Inr (AList.update (fst kv) r merged)))
                 else Inr (AList.update (fst kv) (snd kv) merged))
           (ownEntries user_config) (Inr (ownEntries default_config)) of
        Inl e \<Rightarrow> Inl e
      | Inr merged \<Rightarrow> Inr (JObj merged))"
  by pat_completeness auto

lemma size_ownEntries:
  "(k, v) \<in> set (ownEntries u) \<Longrightarrow> typeofObject v \<Longrightarrow> size v < size u"
proof (cases u)
  case (JObj ps)
  assume "(k, v) \<in> set (ownEntries u)"
  with JObj have "(k, v) \<in> set ps" by simp
  then have "size v < Suc (size_list (size_prod (\<lambda>_. 0) size) ps)"
    by (induction ps) auto
  with JObj show ?thesis by simp
next
  case (JArr xs)
  assume "(k, v) \<in> set (ownEntries u)"
  with JArr have "v \<in> set xs" by (auto dest: set_zip_rightD)
  then have "size v < Suc (size_list size xs)"
    by (induction xs) auto
  with JArr show ?thesis by simp
next
  case (JStr s)
  assume "(k, v) \<in> set (ownEntries u)" and "typeofObject v"
  with JStr show ?thesis by (auto dest!: set_zip_rightD)
qed auto

termination mergeConfig
proof (relation "measure (\<lambda>(d, u). size u)")
  show "wf (measure (\<lambda>(d, u). size u))" by simp
next
  fix default_config user_config :: jsval and kv :: "pkey \<times> jsval" and d :: jsval
  assume "kv \<in> set (ownEntries user_config)"
    and "typeofObject (snd kv) \<and> \<not> isArray (snd kv)"
  then have "size (snd kv) < size user_config"
    using size_ownEntries [of "fst kv" "snd kv" user_config] by simp
  then show "((orEmpty d, snd kv), (default_config, user_config)) \<in> measure (\<lambda>(d, u). size u)"
    by simp
qed

declare mergeConfig.simps [simp del]

text \<open>One turn of the loop of \<open>mergeConfig\<close>, named for the proofs.\<close>

definition mergeStep ::
  "jsval \<Rightarrow> pkey \<times> jsval \<Rightarrow> jserror + (pkey \<times> jsval) list
     \<Rightarrow> jserror + (pkey \<times> jsval) list" where
  "mergeStep default_config kv acc =
     (case acc of
        Inl e \<Rightarrow> Inl e
      | Inr merged \<Rightarrow>
          if typeofObject (snd kv) \<and> \<not> isArray (snd kv) then
            (case getProp default_config (fst kv) of
               Inl e \<Rightarrow> Inl e
             | Inr d \<Rightarrow>
                 (case mergeConfig (orEmpty d) (snd kv) of
                    Inl e \<Rightarrow> Inl e
                  | Inr r \<Rightarrow> Inr (AList.update (fst kv) r merged)))
          else Inr (AList.update (fst kv) (snd kv) merged))"

definition nullish :: "jsval \<Rightarrow> bool" where
  "nullish v = (v = JUndefined \<or> v = JNull)"

text \<open>The value that the loop assigns at the key \<open>k\<close> for the user's value \<open>v\<close>.\<close>

definition assigned :: "jsval \<Rightarrow> pkey \<Rightarrow> jsval \<Rightarrow> jserror + jsval" where
  "assigned d k v =
     (if typeofObject v \<and> \<not> isArray v then
        (case getProp d k of Inl e \<Rightarrow> Inl e | Inr x \<Rightarrow> mergeConfig (orEmpty x) v)
      else Inr v)"

text \<open>The defaults of the source.\<close>

definition defaultTracking :: jsval where
  "defaultTracking = JObj
     [(PName ''forms'', JObj
         [(PName ''enabled'', JBool True),
          (PName ''eventName'', JStr (units ''form_submit''))]),
      (PName ''typeform'', JObj
         [(PName ''enabled'', JBool True),
          (PName ''eventName'', JStr (units ''typeform_submit''))]),
      (PName ''calendly'', JObj
         [(PName ''enabled'', JBool True),
          (PName ''eventName'', JStr (units ''calendly_submit''))]),
      (PName ''hubspot'', JObj
         [(PName ''enabled'', JBool True),
          (PName ''eventName'', JStr (units ''hubspot_submit''))]),
      (PName ''scroll'', JObj
         [(PName ''enabled'', JBool False),
          (PName ''thresholds'', JArr [JNum 25, JNum 50, JNum 75]),
          (PName ''eventName'', JStr (units ''scroll_depth''))]),
      (PName ''outbound'', JObj
         [(PName ''enabled'', JBool True),
          (PName ''eventName'', JStr (units ''outbound_link''))]),
      (PName ''contactLinks'', JObj
         [(PName ''enabled'', JBool True),
          (PName ''eventName'', JObj
             [(PName ''phone'', JStr (units ''phone_link'')),
              (PName ''email'', JStr (units ''email_link''))])])]"

definition defaultConfig :: jsval where
  "defaultConfig = JObj
     [(PName ''debug'', JBool False),
      (PName ''retryAttempts'', JNum 3),
      (PName ''retryDelay'', JNum 1000),
      (PName ''tracking'', defaultTracking)]"

section \<open>The readiness gate, the event queue and the dispatcher\<close>

text \<open>
  The collector \<open>window.umami\<close> is an object with a \<open>track\<close> function (its contract with
  this library); all the model knows of it is which calls of \<open>track\<close> throw. Every call
  is recorded in \<open>tracked\<close>, whether it throws or not.

  \<open>config\<close> is the object that the constructor gets from \<open>mergeConfig\<close>, kept as the list
  of its properties. Nothing validates it: the gate reads \<open>debug\<close> and \<open>retryAttempts\<close>
  from it as the values they are. \<open>maxAttempts\<close> and \<open>attempts\<close> are the variables of
  the closure of \<open>waitForUmami\<close>, and \<open>checkInterval\<close> tells whether the interval is
  registered with the browser.

  \<open>clock\<close> is the sequence of strings that \<open>new Date().toISOString()\<close> returns, one
  for each reading, and \<open>reads\<close> counts the readings made so far.

  The adapters that \<open>setupEventListeners\<close> installs work on the document; the gate
  records only that the installation ran.
\<close>

type_synonym collector = "jsstring \<Rightarrow> jsval \<Rightarrow> bool"

text \<open>
  A number of the page at run time: a rational (every finite double is one), or one of
  \<open>NaN\<close>, \<open>Infinity\<close> and \<open>-Infinity\<close>.
\<close>

datatype 'a jsnum = Fin 'a | NaN | PosInf | NegInf

text \<open>
  The number that \<open>>=\<close> makes of its right operand. A plain object becomes
  \<open>[object Object]\<close> and so \<open>NaN\<close>. What the platform makes of a string, and of an
  array through its \<open>join\<close>, is the parameter \<open>num\<close> of the model.
\<close>

fun toNumber :: "(jsval \<Rightarrow> rat jsnum) \<Rightarrow> jsval \<Rightarrow> rat jsnum" where
  "toNumber num JUndefined = NaN"
| "toNumber num JNull = Fin 0"
| "toNumber num (JBool b) = Fin (if b then 1 else 0)"
| "toNumber num (JNum n) = Fin (of_int n)"
| "toNumber num (JObj ps) = NaN"
| "toNumber num v = num v"

text \<open>\<open>attempts >= maxAttempts\<close>, which is false when \<open>maxAttempts\<close> is no number.\<close>

definition notLess :: "(jsval \<Rightarrow> rat jsnum) \<Rightarrow> nat \<Rightarrow> jsval \<Rightarrow> bool" where
  "notLess num attempts maxAttempts =
     (case toNumber num maxAttempts of
        Fin x \<Rightarrow> x \<le> of_nat attempts
      | NegInf \<Rightarrow> True
      | NaN \<Rightarrow> False
      | PosInf \<Rightarrow> False)"

text \<open>The read \<open>this.config.name\<close>.\<close>

definition readProp :: "(pkey \<times> jsval) list \<Rightarrow> string \<Rightarrow> jsval" where
  "readProp ps name = (case map_of ps (PName name) of Some v \<Rightarrow> v | None \<Rightarrow> JUndefined)"

datatype logmsg =
    InitializedWithConfig
  | FailedToInitialize jsval
  | EventTracked jsstring jsval
  | FailedToTrack jsval jserror

record state =
  config :: "(pkey \<times> jsval) list"
  initialized :: bool
  eventQueue :: "(jsval \<times> jsval) list"
  attempts :: nat
  maxAttempts :: jsval
  checkInterval :: bool
  listeners :: bool
  umami :: "collector option"
  tracked :: "(jsstring \<times> jsval) list"
  console :: "logmsg list"
  clock :: "nat \<Rightarrow> jsstring"
  numberOf :: "jsval \<Rightarrow> rat jsnum"
  reads :: nat

text \<open>A call either returns the new state or throws, leaving the state it had reached.\<close>

type_synonym outcome = "(jserror \<times> state) + state"

definition logDebug :: "logmsg \<Rightarrow> state \<Rightarrow> state" where
  "logDebug msg s =
     (if truthy (readProp (config s) ''debug'') then s\<lparr>console := console s @ [msg]\<rparr>
      else s)"

definition checkUmamiAvailable :: "state \<Rightarrow> bool" where
  "checkUmamiAvailable s = (umami s \<noteq> None)"

text \<open>\<open>this.sanitizeEventName(event)\<close> on any value: only a string has \<open>toLowerCase\<close>.\<close>

fun sanitizeEventNameOf :: "jsval \<Rightarrow> jserror + jsstring" where
  "sanitizeEventNameOf (JStr s) = Inr (sanitizeEventName s)"
| "sanitizeEventNameOf v = Inl TypeError"

text \<open>\<open>{ ...properties, timestamp: t }\<close>.\<close>

definition enhance :: "jsval \<Rightarrow> jsstring \<Rightarrow> jsval" where
  "enhance properties t =
     JObj (AList.update (PName ''timestamp'') (JStr t) (ownEntries properties))"

text \<open>The body of the \<open>try\<close> block of \<open>logEvent\<close>.\<close>

definition dispatch :: "jsval \<Rightarrow> jsval \<Rightarrow> state \<Rightarrow> outcome" where
  "dispatch event properties s =
     (case sanitizeEventNameOf event of
        Inl e \<Rightarrow> Inl (e, s)
      | Inr sanitizedEvent \<Rightarrow>
          (let enhancedProperties = enhance properties (clock s (reads s));
               s1 = s\<lparr>reads := Suc (reads s)\<rparr>
           in case umami s1 of
                None \<Rightarrow> Inl (TypeError, s1)
              | Some track \<Rightarrow>
                  (let s2 = s1\<lparr>tracked := tracked s1 @ [(sanitizedEvent, enhancedProperties)]\<rparr>
                   in if track sanitizedEvent enhancedProperties then Inl (CollectorError, s2)
                      else Inr (logDebug (EventTracked sanitizedEvent enhancedProperties) s2))))"

text \<open>\<open>properties = {}\<close>: the default of a parameter replaces \<open>undefined\<close> only.\<close>

definition defaultProperties :: "jsval \<Rightarrow> jsval" where
  "defaultProperties properties = (if properties = JUndefined then JObj [] else properties)"

definition logEvent :: "jsval \<Rightarrow> jsval \<Rightarrow> state \<Rightarrow> outcome" where
  "logEvent event props s =
     (let properties = defaultProperties props in
      if \<not> initialized s then
        Inr (s\<lparr>eventQueue := eventQueue s @ [(event, properties)]\<rparr>)
      else
        (case dispatch event properties s of
           Inr s' \<Rightarrow> Inr s'
         | Inl (error, s') \<Rightarrow> Inr (logDebug (FailedToTrack event error) s')))"

text \<open>
  \<open>processEventQueue\<close>: the \<open>while\<close> loop has no bound of its own, so that not
  returning is the value \<open>None\<close>.
\<close>

partial_function (option) processEventQueue :: "state \<Rightarrow> outcome option" where
  "processEventQueue s =
     (case eventQueue s of
        [] \<Rightarrow> Some (Inr s)
      | entry # rest \<Rightarrow>
          (case logEvent (fst entry) (snd entry) (s\<lparr>eventQueue := rest\<rparr>) of
             Inl err \<Rightarrow> Some (Inl err)
           | Inr s' \<Rightarrow> processEventQueue s'))"

definition setupEventListeners :: "state \<Rightarrow> state" where
  "setupEventListeners s = s\<lparr>listeners := True\<rparr>"

text \<open>What \<open>init\<close> and the interval's callback do once the collector is there.\<close>

definition becomeReady :: "state \<Rightarrow> outcome option" where
  "becomeReady s =
     (case processEventQueue (s\<lparr>initialized := True\<rparr>) of
        None \<Rightarrow> None
      | Some (Inl err) \<Rightarrow> Some (Inl err)
      | Some (Inr s') \<Rightarrow> Some (Inr (setupEventListeners s')))"

text \<open>The callback that \<open>waitForUmami\<close> hands to \<open>setInterval\<close>.\<close>

definition intervalCallback :: "state \<Rightarrow> outcome option" where
  "intervalCallback s =
     (let s1 = s\<lparr>attempts := attempts s + 1\<rparr>
      in if checkUmamiAvailable s1 then becomeReady (s1\<lparr>checkInterval := False\<rparr>)
         else if notLess (numberOf s1) (attempts s1) (maxAttempts s1) then
           Some (Inr (logDebug (FailedToInitialize (maxAttempts s1))
                        (s1\<lparr>checkInterval := False\<rparr>)))
         else Some (Inr s1))"

definition waitForUmami :: "state \<Rightarrow> state" where
  "waitForUmami s =
     s\<lparr>maxAttempts := readProp (config s) ''retryAttempts'', attempts := 0,
       checkInterval := True\<rparr>"

definition init :: "state \<Rightarrow> outcome option" where
  "init s = (if checkUmamiAvailable s then becomeReady s else Some (Inr (waitForUmami s)))"

text \<open>
  The constructor, on a page whose collector, clock and conversion to numbers are given.
  \<open>blank\<close> is the instance before the constructor has assigned anything; the
  parameter \<open>options = {}\<close> has the same default as the properties of \<open>logEvent\<close>.
\<close>

definition blank :: "collector option \<Rightarrow> (nat \<Rightarrow> jsstring) \<Rightarrow> (jsval \<Rightarrow> rat jsnum) \<Rightarrow> state" where
  "blank u clk num =
     \<lparr>config = [], initialized = False, eventQueue = [], attempts = 0,
      maxAttempts = JUndefined, checkInterval = False, listeners = False, umami = u,
      tracked = [], console = [], clock = clk, numberOf = num, reads = 0\<rparr>"

definition construct ::
  "jsval \<Rightarrow> collector option \<Rightarrow> (nat \<Rightarrow> jsstring) \<Rightarrow> (jsval \<Rightarrow> rat jsnum) \<Rightarrow> outcome option" where
  "construct options u clk num =
     (case mergeConfig defaultConfig (defaultProperties options) of
        Inl e \<Rightarrow> Some (Inl (e, blank u clk num))
      | Inr merged \<Rightarrow>
          init (logDebug InitializedWithConfig
                  ((blank u clk num)\<lparr>config := ownEntries merged\<rparr>)))"

text \<open>
  What happens on the page, one callback at a time: the browser fires the interval
  (which it does only while the interval is registered), some caller invokes
  \<open>logEvent\<close>, or the collector's script defines \<open>window.umami\<close>.
\<close>

datatype event = Tick | Call jsval jsval | Install collector

fun step :: "event \<Rightarrow> state \<Rightarrow> outcome option" where
  "step Tick s = (if checkInterval s then intervalCallback s else Some (Inr s))"
| "step (Call e p) s = Some (logEvent e p s)"
| "step (Install c) s = Some (Inr (s\<lparr>umami := Some c\<rparr>))"

fun run :: "event list \<Rightarrow> state \<Rightarrow> outcome option" where
  "run [] s = Some (Inr s)"
| "run (e # es) s =
     (case step e s of
        None \<Rightarrow> None
      | Some (Inl err) \<Rightarrow> Some (Inl err)
      | Some (Inr s') \<Rightarrow> run es s')"

text \<open>
  The calls of \<open>track\<close> that a queue of events with string names is due, in the words of
  the specification: each event once, in the order of the queue, its name sanitized and
  its properties under the timestamp read when it is dispatched.
\<close>

fun deliveries :: "(nat \<Rightarrow> jsstring) \<Rightarrow> nat \<Rightarrow> (jsstring \<times> jsval) list \<Rightarrow> (jsstring \<times> jsval) list" where
  "deliveries clk r [] = []"
| "deliveries clk r ((n, p) # q) =
     (sanitizeEventName n, enhance (defaultProperties p) (clk r)) # deliveries clk (Suc r) q"

text \<open>The polls, the calls of \<open>logEvent\<close> and the absence of the collector in a list of events.\<close>

fun polls :: "event list \<Rightarrow> nat" where
  "polls [] = 0"
| "polls (Tick # es) = Suc (polls es)"
| "polls (e # es) = polls es"

fun calls :: "event list \<Rightarrow> (jsval \<times> jsval) list" where
  "calls [] = []"
| "calls (Call e p # es) = (e, defaultProperties p) # calls es"
| "calls (e # es) = calls es"

fun collectorAbsent :: "event list \<Rightarrow> bool" where
  "collectorAbsent [] = True"
| "collectorAbsent (Install c # es) = False"
| "collectorAbsent (e # es) = collectorAbsent es"

text \<open>The logged events whose name is a string, in the order of the calls.\<close>

fun stringNamed :: "(jsval \<times> jsval) list \<Rightarrow> (jsstring \<times> jsval) list" where
  "stringNamed [] = []"
| "stringNamed ((JStr n, p) # q) = (n, p) # stringNamed q"
| "stringNamed (e # q) = stringNamed q"

text \<open>The state after a call of \<open>track\<close> for the name \<open>n\<close> with the properties \<open>p\<close>.\<close>

definition delivered :: "jsstring \<Rightarrow> jsval \<Rightarrow> state \<Rightarrow> state" where
  "delivered n p s =
     s\<lparr>reads := Suc (reads s),
       tracked := tracked s @ [(sanitizeEventName n, enhance p (clock s (reads s)))]\<rparr>"

text \<open>
  What the ready gate makes of an event, the console apart: a call of \<open>track\<close> for a
  name that is a string, nothing for any other name.
\<close>

fun dispatched :: "jsval \<Rightarrow> jsval \<Rightarrow> state \<Rightarrow> state" where
  "dispatched (JStr n) p s = delivered n (defaultProperties p) s"
| "dispatched e p s = s"

text \<open>
  What a call leaves as it was, but for the queue, the calls of \<open>track\<close>, the console
  and the readings of the clock.
\<close>

definition sameGate :: "state \<Rightarrow> state \<Rightarrow> bool" where
  "sameGate s s' = (config s' = config s \<and> checkInterval s' = checkInterval s
     \<and> attempts s' = attempts s \<and> maxAttempts s' = maxAttempts s
     \<and> listeners s' = listeners s \<and> umami s' = umami s \<and> clock s' = clock s
     \<and> numberOf s' = numberOf s \<and> initialized s' = initialized s)"

text \<open>The gate while the collector is absent, and what the events \<open>es\<close> do to it.\<close>

definition absent :: "state \<Rightarrow> bool" where
  "absent s = (\<not> initialized s \<and> umami s = None)"

definition keeps :: "state \<Rightarrow> event list \<Rightarrow> state \<Rightarrow> bool" where
  "keeps s es s' = (absent s' \<and> eventQueue s' = eventQueue s @ calls es
     \<and> tracked s' = tracked s \<and> config s' = config s \<and> clock s' = clock s
     \<and> reads s' = reads s \<and> maxAttempts s' = maxAttempts s \<and> numberOf s' = numberOf s)"

text \<open>
  The interval under an integer \<open>retryAttempts = r\<close>: it is registered exactly as long
  as fewer than \<open>max 1 r\<close> polls have been made.
\<close>

definition counted :: "int \<Rightarrow> state \<Rightarrow> bool" where
  "counted r s = (maxAttempts s = JNum r
     \<and> (checkInterval s \<longleftrightarrow> int (attempts s) < max 1 r))"

section \<open>Scroll-depth tracking\<close>

text \<open>
  \<open>getScrollPercentage\<close> computes a double from the measures of the document. The model
  does not redo that arithmetic: the value that \<open>getScrollPercentage()\<close> returns at a
  deferred check or at a scroll event is given with the event, as a rational or one of
  the three values that a division by zero leaves behind. Within one callback every call
  of \<open>getScrollPercentage()\<close> returns the same value, since the document does not move
  in between.
\<close>

text \<open>
  \<open>Math.round\<close> returns the integer nearest to its argument, and the upper one of two
  that are equally near.
\<close>

fun mathRound :: "rat jsnum \<Rightarrow> int jsnum" where
  "mathRound (Fin x) = Fin \<lfloor>x + 1 / 2\<rfloor>"
| "mathRound NaN = NaN"
| "mathRound PosInf = PosInf"
| "mathRound NegInf = NegInf"

text \<open>\<open>percentage >= threshold\<close> and \<open>initialPercentage < 25\<close>; \<open>NaN\<close> compares false.\<close>

fun jsGe :: "int jsnum \<Rightarrow> int \<Rightarrow> bool" where
  "jsGe (Fin p) t = (t \<le> p)"
| "jsGe PosInf t = True"
| "jsGe NaN t = False"
| "jsGe NegInf t = False"

fun jsLt :: "rat jsnum \<Rightarrow> rat \<Rightarrow> bool" where
  "jsLt (Fin x) c = (x < c)"
| "jsLt NegInf c = True"
| "jsLt NaN c = False"
| "jsLt PosInf c = False"

text \<open>
  The closure of \<open>setupScrollTracking\<close>: the set \<open>reached\<close>, the flag
  \<open>scrollEventAttached\<close>, whether the \<open>once\<close> listener is still registered, and the
  thresholds for which \<open>logEvent\<close> has been called, in the order of the calls.
\<close>

record tracker =
  reached :: "int set"
  scrollEventAttached :: bool
  onceListener :: bool
  fired :: "int list"

definition newTracker :: tracker where
  "newTracker = \<lparr>reached = {}, scrollEventAttached = False, onceListener = True, fired = []\<rparr>"

text \<open>The body of \<open>thresholds.forEach\<close> at the rounded percentage \<open>p\<close>.\<close>

definition visit :: "int jsnum \<Rightarrow> int \<Rightarrow> tracker \<Rightarrow> tracker" where
  "visit percentage threshold tr =
     (if jsGe percentage threshold \<and> threshold \<notin> reached tr then
        tr\<lparr>reached := insert threshold (reached tr), fired := fired tr @ [threshold]\<rparr>
      else tr)"

definition pass :: "int jsnum \<Rightarrow> int list \<Rightarrow> tracker \<Rightarrow> tracker" where
  "pass percentage thresholds tr = fold (visit percentage) thresholds tr"

text \<open>\<open>handleScroll\<close>, where \<open>x\<close> is what \<open>getScrollPercentage()\<close> returns.\<close>

definition handleScroll :: "int list \<Rightarrow> rat jsnum \<Rightarrow> tracker \<Rightarrow> tracker" where
  "handleScroll thresholds x tr = pass (mathRound x) thresholds tr"

definition attachScrollHandler :: "int list \<Rightarrow> rat jsnum \<Rightarrow> tracker \<Rightarrow> tracker" where
  "attachScrollHandler thresholds x tr =
     (if \<not> scrollEventAttached tr then
        handleScroll thresholds x (tr\<lparr>scrollEventAttached := True\<rparr>)
      else tr)"

text \<open>The callback of \<open>setTimeout\<close>, one second after the setup.\<close>

definition deferredCheck :: "int list \<Rightarrow> rat jsnum \<Rightarrow> tracker \<Rightarrow> tracker" where
  "deferredCheck thresholds x tr =
     (let initialPercentage = x in
      if jsLt initialPercentage 25 then attachScrollHandler thresholds x tr else tr)"

text \<open>
  A \<open>scroll\<close> event of the window: the \<open>once\<close> listener runs if it is still
  registered, then \<open>handleScroll\<close> if it was registered before this event.
\<close>

definition onScroll :: "int list \<Rightarrow> rat jsnum \<Rightarrow> tracker \<Rightarrow> tracker" where
  "onScroll thresholds x tr =
     (let tr1 = (if onceListener tr then
                   attachScrollHandler thresholds x (tr\<lparr>onceListener := False\<rparr>)
                 else tr)
      in if scrollEventAttached tr then handleScroll thresholds x tr1 else tr1)"

datatype scrollEvent = Deferred "rat jsnum" | Scroll "rat jsnum"

fun scrollStep :: "int list \<Rightarrow> scrollEvent \<Rightarrow> tracker \<Rightarrow> tracker" where
  "scrollStep thresholds (Deferred x) tr = deferredCheck thresholds x tr"
| "scrollStep thresholds (Scroll x) tr = onScroll thresholds x tr"

definition scrollRun :: "int list \<Rightarrow> scrollEvent list \<Rightarrow> tracker \<Rightarrow> tracker" where
  "scrollRun thresholds evs tr = fold (scrollStep thresholds) evs tr"

text \<open>The lowest of the configured thresholds, as the specification names it.\<close>

definition lowestThreshold :: "int list \<Rightarrow> int" where
  "lowestThreshold thresholds = fold min (tl thresholds) (hd thresholds)"

text \<open>The thresholds that one pass at the percentage \<open>p\<close> fires, given the set reached so far.\<close>

fun fresh :: "int jsnum \<Rightarrow> int list \<Rightarrow> int set \<Rightarrow> int list" where
  "fresh p [] R = []"
| "fresh p (t # ts) R =
     (if jsGe p t \<and> t \<notin> R then t # fresh p ts (insert t R) else fresh p ts R)"

text \<open>
  What every reachable state of the tracker satisfies: \<open>reached\<close> holds the thresholds
  fired so far, they were fired in ascending order and once each, and every threshold
  not yet reached lies above all of them.
\<close>

definition orderly :: "int list \<Rightarrow> tracker \<Rightarrow> bool" where
  "orderly ts tr = (reached tr = set (fired tr) \<and> sorted (fired tr) \<and> distinct (fired tr)
     \<and> (\<forall>f \<in> set (fired tr). \<forall>t \<in> set ts. t \<notin> reached tr \<longrightarrow> f < t))"

section \<open>Properties of the sanitization\<close>

lemma inClass_replaceOutside: "list_all inClass (replaceOutside s)"
  by (induction s) (simp_all add: replaceOutside_def inClass_def)

lemma set_collapseUnderscores: "set (collapseUnderscores s) \<subseteq> set s"
  by (induction s rule: collapseUnderscores.induct) auto

lemma inClass_collapseUnderscores:
  "list_all inClass s \<Longrightarrow> list_all inClass (collapseUnderscores s)"
  using set_collapseUnderscores [of s] by (auto simp: list_all_iff)

lemma hd_collapseUnderscores:
  "collapseUnderscores (x # xs) \<noteq> [] \<and> hd (collapseUnderscores (x # xs)) = x"
  by (induction xs arbitrary: x) auto

lemma noDouble_collapseUnderscores: "noDoubleUnderscore (collapseUnderscores s)"
proof (induction s rule: collapseUnderscores.induct)
  case (3 x y xs)
  obtain z zs where c: "collapseUnderscores (y # xs) = z # zs"
    using hd_collapseUnderscores [of y xs] by (cases "collapseUnderscores (y # xs)") auto
  with hd_collapseUnderscores [of y xs] have "z = y" by simp
  with 3 c show ?case by auto
qed simp_all

lemma inClass_not_white: "inClass u \<Longrightarrow> \<not> isWhiteSpace u"
  by (auto simp: inClass_def isWhiteSpace_def)

lemma dropWhile_none: "list_all (\<lambda>u. \<not> P u) s \<Longrightarrow> dropWhile P s = s"
  by (cases s) simp_all

lemma trim_no_white: "list_all (\<lambda>u. \<not> isWhiteSpace u) s \<Longrightarrow> trim s = s"
  by (simp add: trim_def dropWhile_none)

text \<open>After the replacement no white space is left, so the final \<open>trim\<close> removes nothing.\<close>

lemma trim_inClass: "list_all inClass s \<Longrightarrow> trim s = s"
  by (rule trim_no_white) (auto simp: list_all_iff inClass_not_white)

lemma sanitize_eq:
  "sanitizeEventName e = collapseUnderscores (replaceOutside (toLowerCase e))"
  by (simp add: sanitizeEventName_def trim_inClass inClass_collapseUnderscores
      inClass_replaceOutside)

lemma lowerUnit_inClass: "inClass u \<Longrightarrow> lowerUnit u = [u]"
  by (auto simp: inClass_def lowerUnit_def)

lemma toLowerCase_inClass: "list_all inClass s \<Longrightarrow> toLowerCase s = s"
  by (induction s) (simp_all add: toLowerCase_def lowerUnit_inClass)

lemma replaceOutside_inClass: "list_all inClass s \<Longrightarrow> replaceOutside s = s"
  by (induction s) (simp_all add: replaceOutside_def)

lemma collapse_noDouble: "noDoubleUnderscore s \<Longrightarrow> collapseUnderscores s = s"
  by (induction s rule: collapseUnderscores.induct) auto

lemma sanitize_inClass: "list_all inClass (sanitizeEventName e)"
  by (simp add: sanitize_eq inClass_collapseUnderscores inClass_replaceOutside)

lemma sanitize_noDouble: "noDoubleUnderscore (sanitizeEventName e)"
  by (simp add: sanitize_eq noDouble_collapseUnderscores)

lemma sanitize_fixed:
  "list_all inClass s \<Longrightarrow> noDoubleUnderscore s \<Longrightarrow> sanitizeEventName s = s"
  by (simp add: sanitize_eq toLowerCase_inClass replaceOutside_inClass collapse_noDouble)

lemmas sanitize_defs =
  sanitizeEventName_def toLowerCase_def lowerUnit_def replaceOutside_def inClass_def
  trim_def isWhiteSpace_def units_def

text \<open>
  C2, as the claim states it, fails: the name \<open>Form Submit!!\<close> is sanitized to
  \<open>form_submit_\<close>, which ends with an underscore, and \<open>!x\<close> to \<open>_x\<close>, which begins
  with one.
\<close>

theorem sanitize_keeps_end_underscores:
  "sanitizeEventName (units ''Form Submit!!'') = units ''form_submit_''
   \<and> trailingUnderscore (sanitizeEventName (units ''Form Submit!!''))
   \<and> sanitizeEventName (units ''!x'') = units ''_x''
   \<and> leadingUnderscore (sanitizeEventName (units ''!x''))"
  by (simp add: sanitize_defs trailingUnderscore_def leadingUnderscore_def)

text \<open>
  C2, amended: for every input string, \<open>sanitizeEventName\<close> returns a string that
  contains only lower-case ASCII letters, digits and underscores, in which every run of
  underscores is collapsed to a single underscore.
\<close>

theorem sanitize_charset_and_runs:
  "list_all inClass (sanitizeEventName x) \<and> noDoubleUnderscore (sanitizeEventName x)"
  by (simp add: sanitize_inClass sanitize_noDouble)

text \<open>
  C3: sanitization is idempotent, its output matches \<open>^[a-z0-9_]*$\<close>, and no two
  underscores of the output are adjacent.
\<close>

theorem sanitize_idempotent:
  "sanitizeEventName (sanitizeEventName x) = sanitizeEventName x
   \<and> list_all inClass (sanitizeEventName x)
   \<and> noDoubleUnderscore (sanitizeEventName x)"
  by (simp add: sanitize_fixed sanitize_inClass sanitize_noDouble)

section \<open>Properties of \<open>mergeConfig\<close>\<close>

lemma mergeConfig_unfold:
  "mergeConfig d u =
     (case fold (mergeStep d) (ownEntries u) (Inr (ownEntries d)) of
        Inl e \<Rightarrow> Inl e | Inr merged \<Rightarrow> Inr (JObj merged))"
proof -
  have "mergeStep d = (\<lambda>kv acc.
             case acc of
               Inl e \<Rightarrow> Inl e
             | Inr merged \<Rightarrow>
                 if typeofObject (snd kv) \<and> \<not> isArray (snd kv) then
                   (case getProp d (fst kv) of
                      Inl e \<Rightarrow> Inl e
                    | Inr d \<Rightarrow>
                        (case mergeConfig (orEmpty d) (snd kv) of
                           Inl e \<Rightarrow> Inl e
                         | Inr r \<Rightarrow> Inr (AList.update (fst kv) r merged)))
                 else Inr (AList.update (fst kv) (snd kv) merged))"
    by (intro ext) (simp add: mergeStep_def)
  then show ?thesis by (subst mergeConfig.simps) simp
qed

lemma mergeStep_assigned:
  "mergeStep d (k, v) (Inr m) =
     (case assigned d k v of Inl e \<Rightarrow> Inl e | Inr r \<Rightarrow> Inr (AList.update k r m))"
  by (simp add: mergeStep_def assigned_def split: sum.splits)

lemma mergeStep_Inl [simp]: "mergeStep d kv (Inl e) = Inl e"
  by (simp add: mergeStep_def)

lemma fold_mergeStep_Inl [simp]: "fold (mergeStep d) es (Inl e) = Inl e"
  by (induction es) simp_all

lemma orEmpty_not_nullish: "\<not> nullish (orEmpty v)"
  by (cases v) (auto simp: orEmpty_def nullish_def)

lemma getProp_total: "\<not> nullish d \<Longrightarrow> \<exists>x. getProp d k = Inr x"
  by (cases d) (auto simp: nullish_def)

lemma mergeConfig_total:
  "\<not> nullish d \<Longrightarrow> \<exists>m. mergeConfig d u = Inr (JObj m)"
proof (induction d u rule: mergeConfig.induct)
  case (1 d u)
  have "\<exists>m'. fold (mergeStep d) es (Inr m) = Inr m'"
    if "set es \<subseteq> set (ownEntries u)" for es m
    using that
  proof (induction es arbitrary: m)
    case Nil
    then show ?case by simp
  next
    case (Cons kv es)
    obtain x where x: "getProp d (fst kv) = Inr x"
      using getProp_total [OF "1.prems"] by blast
    have "\<exists>m1. mergeStep d kv (Inr m) = Inr m1"
    proof (cases "typeofObject (snd kv) \<and> \<not> isArray (snd kv)")
      case True
      have "kv \<in> set (ownEntries u)" using Cons.prems by simp
      from "1.IH" [OF this True x orEmpty_not_nullish]
      obtain r where "mergeConfig (orEmpty x) (snd kv) = Inr (JObj r)" by blast
      with True x show ?thesis by (simp add: mergeStep_def)
    next
      case False
      then show ?thesis by (auto simp: mergeStep_def)
    qed
    then obtain m1 where "mergeStep d kv (Inr m) = Inr m1" ..
    moreover have "set es \<subseteq> set (ownEntries u)" using Cons.prems by simp
    ultimately show ?case using Cons.IH [of m1] by simp
  qed
  then obtain m' where "fold (mergeStep d) (ownEntries u) (Inr (ownEntries d)) = Inr m'"
    by blast
  then show ?case by (subst mergeConfig_unfold) simp
qed

lemma fold_mergeStep_absent:
  "fold (mergeStep d) es (Inr m) = Inr m' \<Longrightarrow> k \<notin> fst ` set es \<Longrightarrow> map_of m' k = map_of m k"
proof (induction es arbitrary: m)
  case Nil
  then show ?case by simp
next
  case (Cons kv es)
  obtain k0 v0 where kv: "kv = (k0, v0)" by (cases kv)
  from Cons.prems(1) obtain r where r: "assigned d k0 v0 = Inr r"
    and f: "fold (mergeStep d) es (Inr (AList.update k0 r m)) = Inr m'"
    by (cases "assigned d k0 v0") (simp_all add: kv mergeStep_assigned)
  from Cons.prems(2) kv have ne: "k \<noteq> k0" and nin: "k \<notin> fst ` set es" by auto
  from Cons.IH [OF f nin] ne show ?case by (simp add: update_conv')
qed

lemma fold_mergeStep_present:
  "fold (mergeStep d) es (Inr m) = Inr m' \<Longrightarrow> distinct (map fst es) \<Longrightarrow> (k, v) \<in> set es
   \<Longrightarrow> \<exists>r. assigned d k v = Inr r \<and> map_of m' k = Some r"
proof (induction es arbitrary: m)
  case Nil
  then show ?case by simp
next
  case (Cons kv es)
  obtain k0 v0 where kv: "kv = (k0, v0)" by (cases kv)
  from Cons.prems(1) obtain r where r: "assigned d k0 v0 = Inr r"
    and f: "fold (mergeStep d) es (Inr (AList.update k0 r m)) = Inr m'"
    by (cases "assigned d k0 v0") (simp_all add: kv mergeStep_assigned)
  from Cons.prems(2) kv have dist: "distinct (map fst es)" and fresh: "k0 \<notin> fst ` set es"
    by simp_all
  show ?case
  proof (cases "(k, v) = (k0, v0)")
    case True
    from fold_mergeStep_absent [OF f fresh] have "map_of m' k0 = Some r"
      by (simp add: update_conv')
    with True r show ?thesis by simp
  next
    case False
    with Cons.prems(3) kv have "(k, v) \<in> set es" by auto
    from Cons.IH [OF f dist this] show ?thesis .
  qed
qed

lemma mergeConfig_objects:
  assumes "distinct (map fst us)"
  shows "\<exists>m. mergeConfig (JObj ds) (JObj us) = Inr (JObj m)
     \<and> (\<forall>k. k \<notin> fst ` set us \<longrightarrow> map_of m k = map_of ds k)
     \<and> (\<forall>k v. (k, v) \<in> set us \<longrightarrow> (\<exists>r. assigned (JObj ds) k v = Inr r \<and> map_of m k = Some r))"
proof -
  have "\<not> nullish (JObj ds)" by (simp add: nullish_def)
  from mergeConfig_total [OF this, of "JObj us"]
  obtain m where m: "mergeConfig (JObj ds) (JObj us) = Inr (JObj m)" by blast
  then have f: "fold (mergeStep (JObj ds)) us (Inr ds) = Inr m"
    by (subst (asm) mergeConfig_unfold) (simp split: sum.splits)
  show ?thesis
    using m fold_mergeStep_absent [OF f] fold_mergeStep_present [OF f assms] by blast
qed

lemmas merge_eval = mergeConfig_unfold mergeStep_def orEmpty_def defaultConfig_def
  defaultTracking_def

text \<open>
  C4: for defaults \<open>ds\<close> and overrides \<open>us\<close>, \<open>mergeConfig\<close> returns an object whose
  keys are those of the defaults and of the overrides. It keeps every default key absent
  from the overrides, with its value; at an override key whose value passes
  the test of the code for a non-array object (\<open>typeof\<close> is \<open>'object'\<close>, which holds of
  \<open>null\<close> too, and it is no array) it holds the recursive merge of that value against
  the default sub-object, the empty object standing for an absent default; and at every
  other override key (scalars and arrays) it holds the override value itself.
\<close>

theorem mergeConfig_policy:
  assumes "distinct (map fst us)"
  shows "\<exists>m. mergeConfig (JObj ds) (JObj us) = Inr (JObj m)
     \<and> dom (map_of m) = dom (map_of ds) \<union> dom (map_of us)
     \<and> (\<forall>k. map_of us k = None \<longrightarrow> map_of m k = map_of ds k)
     \<and> (\<forall>k v. map_of us k = Some v \<and> typeofObject v \<and> \<not> isArray v \<and> map_of ds k = None
           \<longrightarrow> (\<exists>r. mergeConfig (JObj []) v = Inr r \<and> map_of m k = Some r))
     \<and> (\<forall>k v ps. map_of us k = Some v \<and> typeofObject v \<and> \<not> isArray v
             \<and> map_of ds k = Some (JObj ps)
           \<longrightarrow> (\<exists>r. mergeConfig (JObj ps) v = Inr r \<and> map_of m k = Some r))
     \<and> (\<forall>k v. map_of us k = Some v \<and> \<not> (typeofObject v \<and> \<not> isArray v)
           \<longrightarrow> map_of m k = Some v)"
proof -
  from mergeConfig_objects [OF assms, of ds]
  obtain m where m: "mergeConfig (JObj ds) (JObj us) = Inr (JObj m)"
    and absent: "\<And>k. k \<notin> fst ` set us \<Longrightarrow> map_of m k = map_of ds k"
    and present: "\<And>k v. (k, v) \<in> set us
        \<Longrightarrow> \<exists>r. assigned (JObj ds) k v = Inr r \<and> map_of m k = Some r"
    by blast
  have 1: "map_of m k = map_of ds k" if "map_of us k = None" for k
    using that absent by (simp add: map_of_eq_None_iff)
  have 2: "\<exists>r. mergeConfig (JObj []) v = Inr r \<and> map_of m k = Some r"
    if "map_of us k = Some v" "typeofObject v" "\<not> isArray v" "map_of ds k = None" for k v
    using present [OF map_of_SomeD [OF that(1)]] that(2-4)
    by (simp add: assigned_def orEmpty_def)
  have 3: "\<exists>r. mergeConfig (JObj ps) v = Inr r \<and> map_of m k = Some r"
    if "map_of us k = Some v" "typeofObject v" "\<not> isArray v" "map_of ds k = Some (JObj ps)"
    for k v ps
    using present [OF map_of_SomeD [OF that(1)]] that(2-4)
    by (simp add: assigned_def orEmpty_def)
  have 4: "map_of m k = Some v"
    if "map_of us k = Some v" "\<not> (typeofObject v \<and> \<not> isArray v)" for k v
    using present [OF map_of_SomeD [OF that(1)]] that(2)
    by (auto simp: assigned_def)
  have 5: "dom (map_of m) = dom (map_of ds) \<union> dom (map_of us)"
  proof (intro set_eqI)
    fix k
    show "k \<in> dom (map_of m) \<longleftrightarrow> k \<in> dom (map_of ds) \<union> dom (map_of us)"
    proof (cases "map_of us k")
      case None
      with 1 [OF None] show ?thesis by (simp add: domIff)
    next
      case (Some v)
      with present [OF map_of_SomeD [OF Some]] show ?thesis by (auto simp: domIff)
    qed
  qed
  from m 1 2 3 4 5 show ?thesis by blast
qed

theorem mergeConfig_policy_witness:
  "distinct (map fst
      [(PName ''debug'', JBool True),
       (PName ''tracking'', JObj [(PName ''scroll'', JObj
          [(PName ''enabled'', JBool True),
           (PName ''thresholds'', JArr [JNum 20, JNum 50, JNum 80])])]),
       (PName ''extra'', JObj [(PName ''on'', JBool True)])])
   \<and> (\<exists>m. mergeConfig defaultConfig (JObj
      [(PName ''debug'', JBool True),
       (PName ''tracking'', JObj [(PName ''scroll'', JObj
          [(PName ''enabled'', JBool True),
           (PName ''thresholds'', JArr [JNum 20, JNum 50, JNum 80])])]),
       (PName ''extra'', JObj [(PName ''on'', JBool True)])]) = Inr (JObj m)
     \<and> map_of m (PName ''retryAttempts'') = Some (JNum 3)
     \<and> map_of m (PName ''debug'') = Some (JBool True)
     \<and> map_of m (PName ''extra'') = Some (JObj [(PName ''on'', JBool True)])
     \<and> map_of m (PName ''tracking'') = Some (JObj
          [(PName ''forms'', JObj
             [(PName ''enabled'', JBool True),
              (PName ''eventName'', JStr (units ''form_submit''))]),
           (PName ''typeform'', JObj
             [(PName ''enabled'', JBool True),
              (PName ''eventName'', JStr (units ''typeform_submit''))]),
           (PName ''calendly'', JObj
             [(PName ''enabled'', JBool True),
              (PName ''eventName'', JStr (units ''calendly_submit''))]),
           (PName ''hubspot'', JObj
             [(PName ''enabled'', JBool True),
              (PName ''eventName'', JStr (units ''hubspot_submit''))]),
           (PName ''scroll'', JObj
             [(PName ''enabled'', JBool True),
              (PName ''thresholds'', JArr [JNum 20, JNum 50, JNum 80]),
              (PName ''eventName'', JStr (units ''scroll_depth''))]),
           (PName ''outbound'', JObj
             [(PName ''enabled'', JBool True),
              (PName ''eventName'', JStr (units ''outbound_link''))]),
           (PName ''contactLinks'', JObj
             [(PName ''enabled'', JBool True),
              (PName ''eventName'', JObj
                 [(PName ''phone'', JStr (units ''phone_link'')),
                  (PName ''email'', JStr (units ''email_link''))])])]))"
proof -
  let ?us = "[(PName ''debug'', JBool True),
       (PName ''tracking'', JObj [(PName ''scroll'', JObj
          [(PName ''enabled'', JBool True),
           (PName ''thresholds'', JArr [JNum 20, JNum 50, JNum 80])])]),
       (PName ''extra'', JObj [(PName ''on'', JBool True)])]"
  let ?ds = "ownEntries defaultConfig"
  have d: "distinct (map fst ?us)" by simp
  have dc: "defaultConfig = JObj ?ds" by (simp add: defaultConfig_def)
  have dt: "defaultTracking = JObj (ownEntries defaultTracking)"
    by (simp add: defaultTracking_def)
  from mergeConfig_policy [OF d, of ?ds]
  obtain m where m: "mergeConfig (JObj ?ds) (JObj ?us) = Inr (JObj m)"
    and "dom (map_of m) = dom (map_of ?ds) \<union> dom (map_of ?us)"
    and kept: "\<And>k. map_of ?us k = None \<Longrightarrow> map_of m k = map_of ?ds k"
    and fresh: "\<And>k v. map_of ?us k = Some v \<and> typeofObject v \<and> \<not> isArray v
        \<and> map_of ?ds k = None \<Longrightarrow> \<exists>r. mergeConfig (JObj []) v = Inr r \<and> map_of m k = Some r"
    and deep: "\<And>k v ps. map_of ?us k = Some v \<and> typeofObject v \<and> \<not> isArray v
        \<and> map_of ?ds k = Some (JObj ps)
        \<Longrightarrow> \<exists>r. mergeConfig (JObj ps) v = Inr r \<and> map_of m k = Some r"
    and flat: "\<And>k v. map_of ?us k = Some v \<and> \<not> (typeofObject v \<and> \<not> isArray v)
        \<Longrightarrow> map_of m k = Some v"
    by blast
  have "map_of m (PName ''retryAttempts'') = Some (JNum 3)"
    using kept [of "PName ''retryAttempts''"] by (simp add: defaultConfig_def)
  moreover have "map_of m (PName ''debug'') = Some (JBool True)"
    using flat [of "PName ''debug''" "JBool True"] by simp
  moreover have "map_of m (PName ''extra'') = Some (JObj [(PName ''on'', JBool True)])"
    using fresh [of "PName ''extra''" "JObj [(PName ''on'', JBool True)]"]
    by (simp add: merge_eval)
  moreover have "map_of m (PName ''tracking'') = Some (JObj
          [(PName ''forms'', JObj
             [(PName ''enabled'', JBool True),
              (PName ''eventName'', JStr (units ''form_submit''))]),
           (PName ''typeform'', JObj
             [(PName ''enabled'', JBool True),
              (PName ''eventName'', JStr (units ''typeform_submit''))]),
           (PName ''calendly'', JObj
             [(PName ''enabled'', JBool True),
              (PName ''eventName'', JStr (units ''calendly_submit''))]),
           (PName ''hubspot'', JObj
             [(PName ''enabled'', JBool True),
              (PName ''eventName'', JStr (units ''hubspot_submit''))]),
           (PName ''scroll'', JObj
             [(PName ''enabled'', JBool True),
              (PName ''thresholds'', JArr [JNum 20, JNum 50, JNum 80]),
              (PName ''eventName'', JStr (units ''scroll_depth''))]),
           (PName ''outbound'', JObj
             [(PName ''enabled'', JBool True),
              (PName ''eventName'', JStr (units ''outbound_link''))]),
           (PName ''contactLinks'', JObj
             [(PName ''enabled'', JBool True),
              (PName ''eventName'', JObj
                 [(PName ''phone'', JStr (units ''phone_link'')),
                  (PName ''email'', JStr (units ''email_link''))])])])"
    using deep [of "PName ''tracking''" "JObj [(PName ''scroll'', JObj
          [(PName ''enabled'', JBool True),
           (PName ''thresholds'', JArr [JNum 20, JNum 50, JNum 80])])]"
        "ownEntries defaultTracking"] dt
    by (simp add: merge_eval)
  ultimately show ?thesis using d m dc by simp
qed

lemma mergeConfig_null: "\<not> nullish d \<Longrightarrow> mergeConfig d JNull = Inr (JObj (ownEntries d))"
  by (subst mergeConfig_unfold) simp

text \<open>
  C10, as the claim states it, fails when the default sub-value is no object: the
  override \<open>{retryAttempts: null}\<close> turns the default \<open>retryAttempts: 3\<close> into the
  empty object.
\<close>

theorem null_override_of_scalar_default:
  "mergeConfig defaultConfig (JObj [(PName ''retryAttempts'', JNull)]) =
     Inr (JObj
       [(PName ''debug'', JBool False),
        (PName ''retryAttempts'', JObj []),
        (PName ''retryDelay'', JNum 1000),
        (PName ''tracking'', defaultTracking)])
   \<and> getProp defaultConfig (PName ''retryAttempts'') = Inr (JNum 3)"
  by (simp add: merge_eval)

text \<open>
  C10, amended: for every defaults object and every override key whose value is \<open>null\<close>,
  \<open>mergeConfig\<close> stores at that key, instead of \<open>null\<close>, a fresh object with the own
  enumerable properties of \<open>default || {}\<close>; when the default sub-value is a non-array
  object, that is a copy of it.
\<close>

theorem mergeConfig_null_override:
  assumes "distinct (map fst us)" and "map_of us k = Some JNull"
  shows "\<exists>m. mergeConfig (JObj ds) (JObj us) = Inr (JObj m)
     \<and> map_of m k = Some (JObj (ownEntries
          (orEmpty (case map_of ds k of None \<Rightarrow> JUndefined | Some d \<Rightarrow> d))))
     \<and> (\<forall>ps. map_of ds k = Some (JObj ps) \<longrightarrow> map_of m k = Some (JObj ps))"
proof -
  from mergeConfig_objects [OF assms(1), of ds]
  obtain m where m: "mergeConfig (JObj ds) (JObj us) = Inr (JObj m)"
    and present: "\<And>k v. (k, v) \<in> set us
        \<Longrightarrow> \<exists>r. assigned (JObj ds) k v = Inr r \<and> map_of m k = Some r"
    by blast
  let ?d = "case map_of ds k of None \<Rightarrow> JUndefined | Some d \<Rightarrow> d"
  from present [OF map_of_SomeD [OF assms(2)]]
  have "map_of m k = Some (JObj (ownEntries (orEmpty ?d)))"
    by (auto simp: assigned_def mergeConfig_null orEmpty_not_nullish)
  moreover have "map_of m k = Some (JObj ps)" if "map_of ds k = Some (JObj ps)" for ps
    using calculation that by (simp add: orEmpty_def)
  ultimately show ?thesis using m by blast
qed

theorem mergeConfig_null_override_witness:
  "distinct (map fst [(PName ''retryAttempts'', JNull), (PName ''tracking'', JNull)])
   \<and> map_of [(PName ''retryAttempts'', JNull), (PName ''tracking'', JNull)]
         (PName ''tracking'') = Some JNull
   \<and> (\<exists>m. mergeConfig defaultConfig
            (JObj [(PName ''retryAttempts'', JNull), (PName ''tracking'', JNull)])
          = Inr (JObj m)
      \<and> map_of m (PName ''tracking'') = Some defaultTracking)"
proof -
  let ?us = "[(PName ''retryAttempts'', JNull), (PName ''tracking'', JNull)]"
  have d: "distinct (map fst ?us)" and n: "map_of ?us (PName ''tracking'') = Some JNull"
    by simp_all
  from mergeConfig_null_override [OF d n, of "ownEntries defaultConfig"]
  show ?thesis using d n by (auto simp: defaultConfig_def defaultTracking_def)
qed

section \<open>Properties of the dispatcher and of the gate\<close>

text \<open>
  C5: for every event name and every properties argument, in every state of the gate,
  \<open>logEvent\<close> returns: what sanitization or the collector throws ends in the handler.
\<close>

theorem logEvent_returns: "\<exists>s'. logEvent event properties s = Inr s'"
  by (simp add: logEvent_def Let_def split: sum.splits prod.splits)

lemma logEvent_enqueue:
  "\<not> initialized s \<Longrightarrow>
   logEvent e p s = Inr (s\<lparr>eventQueue := eventQueue s @ [(e, defaultProperties p)]\<rparr>)"
  by (simp add: logEvent_def)

lemma defaultProperties_idem [simp]:
  "defaultProperties (defaultProperties p) = defaultProperties p"
  by (simp add: defaultProperties_def)

lemma logDebug_fields [simp]:
  "config (logDebug m s) = config s" "initialized (logDebug m s) = initialized s"
  "eventQueue (logDebug m s) = eventQueue s" "attempts (logDebug m s) = attempts s"
  "maxAttempts (logDebug m s) = maxAttempts s"
  "checkInterval (logDebug m s) = checkInterval s" "listeners (logDebug m s) = listeners s"
  "umami (logDebug m s) = umami s" "tracked (logDebug m s) = tracked s"
  "clock (logDebug m s) = clock s" "numberOf (logDebug m s) = numberOf s"
  "reads (logDebug m s) = reads s"
  by (simp_all add: logDebug_def)

lemma logEvent_ready:
  assumes "initialized s" and "umami s = Some c"
  shows "\<exists>m. logEvent (JStr n) p s = Inr (logDebug m (delivered n (defaultProperties p) s))"
  using assms
  by (auto simp: logEvent_def dispatch_def Let_def delivered_def)

text \<open>A name that is no string makes \<open>sanitizeEventName\<close> throw, and the event is dropped.\<close>

lemma logEvent_ready_dropped:
  assumes "initialized s" and "sanitizeEventNameOf e = Inl err"
  shows "logEvent e p s = Inr (logDebug (FailedToTrack e err) s)"
  using assms by (simp add: logEvent_def dispatch_def)

lemma logEvent_ready_any:
  assumes "initialized s" and "umami s = Some c"
  shows "\<exists>m. logEvent e p s = Inr (logDebug m (dispatched e p s))"
proof (cases "sanitizeEventNameOf e")
  case (Inl err)
  then have "dispatched e p s = s" by (cases e) simp_all
  with logEvent_ready_dropped [OF assms(1) Inl, of p] show ?thesis by auto
next
  case (Inr n')
  then obtain n where "e = JStr n" by (cases e) simp_all
  with logEvent_ready [OF assms, of n p] show ?thesis by simp
qed

lemma processEventQueue_Nil:
  "eventQueue s = [] \<Longrightarrow> processEventQueue s = Some (Inr s)"
  by (subst processEventQueue.simps) simp

lemma processEventQueue_Cons:
  assumes "initialized s" and "umami s = Some c" and "eventQueue s = (e, p) # rest"
  shows "\<exists>m. processEventQueue s
     = processEventQueue (logDebug m (dispatched e p (s\<lparr>eventQueue := rest\<rparr>)))"
proof -
  have "initialized (s\<lparr>eventQueue := rest\<rparr>)" and "umami (s\<lparr>eventQueue := rest\<rparr>) = Some c"
    using assms by simp_all
  from logEvent_ready_any [OF this, of e p]
  obtain m where "logEvent e p (s\<lparr>eventQueue := rest\<rparr>)
      = Inr (logDebug m (dispatched e p (s\<lparr>eventQueue := rest\<rparr>)))" ..
  with assms(3) have "processEventQueue s = processEventQueue
      (logDebug m (dispatched e p (s\<lparr>eventQueue := rest\<rparr>)))"
    by (subst processEventQueue.simps) simp
  then show ?thesis ..
qed

lemma dispatched_fields:
  "initialized (dispatched e p s) = initialized s" "umami (dispatched e p s) = umami s"
  "eventQueue (dispatched e p s) = eventQueue s" "clock (dispatched e p s) = clock s"
  "sameGate s (dispatched e p s)"
  by (cases e; simp add: delivered_def sameGate_def)+

lemma dispatched_tracked:
  "tracked (dispatched e p s) @ deliveries (clock s) (reads (dispatched e p s)) (stringNamed q)
     = tracked s @ deliveries (clock s) (reads s) (stringNamed ((e, p) # q))"
  by (cases e) (simp_all add: delivered_def)

lemma sameGate_trans: "sameGate s s1 \<Longrightarrow> sameGate s1 s' \<Longrightarrow> sameGate s s'"
  by (simp add: sameGate_def)

lemma processEventQueue_drains:
  assumes "initialized s" and "umami s = Some c" and "eventQueue s = q"
  shows "\<exists>s'. processEventQueue s = Some (Inr s')
     \<and> tracked s' = tracked s @ deliveries (clock s) (reads s) (stringNamed q)
     \<and> eventQueue s' = [] \<and> sameGate s s'"
  using assms
proof (induction q arbitrary: s)
  case Nil
  then show ?case by (simp add: processEventQueue_Nil sameGate_def)
next
  case (Cons ep q)
  obtain e p where ep: "ep = (e, p)" by (cases ep)
  from Cons.prems(3) ep have "eventQueue s = (e, p) # q" by simp
  from processEventQueue_Cons [OF Cons.prems(1,2) this]
  obtain m where unfold: "processEventQueue s = processEventQueue
      (logDebug m (dispatched e p (s\<lparr>eventQueue := q\<rparr>)))"
    by auto
  define s1 where "s1 = logDebug m (dispatched e p (s\<lparr>eventQueue := q\<rparr>))"
  have f1: "initialized s1" "umami s1 = Some c" "eventQueue s1 = q"
    using Cons.prems(1,2) by (simp_all add: s1_def dispatched_fields)
  have g1: "sameGate s s1"
    using dispatched_fields(5) [of "s\<lparr>eventQueue := q\<rparr>" e p]
    by (simp add: s1_def sameGate_def)
  have c1: "clock s1 = clock s" by (simp add: s1_def dispatched_fields)
  have t1: "tracked s1 @ deliveries (clock s) (reads s1) (stringNamed q)
      = tracked s @ deliveries (clock s) (reads s) (stringNamed ((e, p) # q))"
    using dispatched_tracked [of e p "s\<lparr>eventQueue := q\<rparr>" q] by (simp add: s1_def)
  from Cons.IH [OF f1]
  obtain s' where s': "processEventQueue s1 = Some (Inr s')"
    and t: "tracked s' = tracked s1 @ deliveries (clock s1) (reads s1) (stringNamed q)"
    and rest: "eventQueue s' = []" "sameGate s1 s'"
    by blast
  have "processEventQueue s = Some (Inr s')"
    using unfold s' by (simp add: s1_def)
  moreover have "tracked s' = tracked s @ deliveries (clock s) (reads s) (stringNamed (ep # q))"
    using t t1 c1 ep by simp
  moreover have "sameGate s s'" using g1 rest(2) by (rule sameGate_trans)
  ultimately show ?case using rest(1) by blast
qed

lemma intervalCallback_absent:
  assumes "umami s = None"
  shows "intervalCallback s = Some (Inr
     (if notLess (numberOf s) (Suc (attempts s)) (maxAttempts s) then
        logDebug (FailedToInitialize (maxAttempts s))
          (s\<lparr>attempts := Suc (attempts s), checkInterval := False\<rparr>)
      else s\<lparr>attempts := Suc (attempts s)\<rparr>))"
  using assms by (simp add: intervalCallback_def Let_def checkUmamiAvailable_def)

text \<open>One event on a gate whose collector is absent.\<close>

lemma step_absent:
  assumes "absent s" and "collectorAbsent [e]"
  shows "\<exists>s'. step e s = Some (Inr s') \<and> keeps s [e] s'"
proof (cases e)
  case Tick
  from assms(1) have u: "umami s = None" by (simp add: absent_def)
  show ?thesis
    using assms(1) Tick intervalCallback_absent [OF u]
    by (simp add: absent_def keeps_def)
next
  case (Call ev p)
  with assms(1) show ?thesis by (simp add: logEvent_enqueue absent_def keeps_def)
next
  case (Install c)
  with assms(2) show ?thesis by simp
qed

lemma collectorAbsent_Cons:
  "collectorAbsent (e # es) = (collectorAbsent [e] \<and> collectorAbsent es)"
  by (cases e) simp_all

lemma collectorAbsent_append:
  "collectorAbsent (xs @ ys) = (collectorAbsent xs \<and> collectorAbsent ys)"
  by (induction xs rule: collectorAbsent.induct) simp_all

lemma polls_Cons: "polls (e # es) = polls [e] + polls es"
  by (cases e) simp_all

lemma calls_Cons: "calls (e # es) = calls [e] @ calls es"
  by (cases e) simp_all

lemma calls_append: "calls (xs @ ys) = calls xs @ calls ys"
  by (induction xs rule: calls.induct) simp_all

lemma keeps_Cons:
  assumes "keeps s [e] s1" and "keeps s1 es s'"
  shows "keeps s (e # es) s'"
proof -
  have "eventQueue s' = eventQueue s @ calls (e # es)"
    using assms calls_Cons [of e es] by (simp add: keeps_def)
  with assms show ?thesis by (simp add: keeps_def)
qed

lemma run_absent:
  assumes "absent s" and "collectorAbsent es"
  shows "\<exists>s'. run es s = Some (Inr s') \<and> keeps s es s'"
  using assms
proof (induction es arbitrary: s)
  case Nil
  then show ?case by (simp add: keeps_def)
next
  case (Cons e es)
  from Cons.prems(2) have a1: "collectorAbsent [e]" and a2: "collectorAbsent es"
    using collectorAbsent_Cons [of e es] by simp_all
  from step_absent [OF Cons.prems(1) a1]
  obtain s1 where s1: "step e s = Some (Inr s1)" and k1: "keeps s [e] s1"
    by blast
  then have "absent s1" by (simp add: keeps_def)
  from Cons.IH [OF this a2]
  obtain s' where s': "run es s1 = Some (Inr s')" and k': "keeps s1 es s'"
    by blast
  have "run (e # es) s = Some (Inr s')" using s1 s' by simp
  with keeps_Cons [OF k1 k'] show ?case by blast
qed

text \<open>The count of the polls under an integer \<open>retryAttempts\<close>.\<close>

lemma notLess_JNum: "notLess num a (JNum r) = (r \<le> int a)"
proof -
  have "(of_int r \<le> (of_nat a :: rat)) = (r \<le> int a)"
    using of_int_le_iff [of r "int a", where ?'a = rat] by simp
  then show ?thesis by (simp add: notLess_def)
qed

lemma step_counted:
  assumes "absent s" and "counted r s" and "collectorAbsent [e]" and "step e s = Some (Inr s')"
  shows "counted r s'
     \<and> int (attempts s') = min (int (attempts s) + int (polls [e]))
         (max (int (attempts s)) (max 1 r))"
proof (cases e)
  case Tick
  from assms(1) have u: "umami s = None" by (simp add: absent_def)
  from assms(2) have m: "maxAttempts s = JNum r"
    and c: "checkInterval s \<longleftrightarrow> int (attempts s) < max 1 r"
    by (simp_all add: counted_def)
  show ?thesis
  proof (cases "checkInterval s")
    case False
    with assms(4) Tick have "s' = s" by simp
    with False c m show ?thesis by (auto simp: counted_def)
  next
    case True
    with c have lt: "int (attempts s) < max 1 r" by simp
    show ?thesis
    proof (cases "r \<le> int (Suc (attempts s))")
      case True
      with assms(4) Tick \<open>checkInterval s\<close> intervalCallback_absent [OF u] m
      have "s' = logDebug (FailedToInitialize (JNum r))
          (s\<lparr>attempts := Suc (attempts s), checkInterval := False\<rparr>)"
        by (simp add: notLess_JNum)
      with True lt m Tick show ?thesis by (simp add: counted_def)
    next
      case False
      with assms(4) Tick \<open>checkInterval s\<close> intervalCallback_absent [OF u] m
      have "s' = s\<lparr>attempts := Suc (attempts s)\<rparr>"
        by (simp add: notLess_JNum)
      with False m Tick \<open>checkInterval s\<close> show ?thesis by (simp add: counted_def)
    qed
  qed
next
  case (Call ev p)
  from assms(1) have "\<not> initialized s" by (simp add: absent_def)
  with assms(4) Call have "s' = s\<lparr>eventQueue := eventQueue s @ [(ev, defaultProperties p)]\<rparr>"
    by (simp add: logEvent_enqueue)
  with assms(2) Call show ?thesis by (auto simp: counted_def)
next
  case (Install c)
  with assms(3) show ?thesis by simp
qed

lemma budget_step:
  fixes a p1 p N :: int
  assumes "0 \<le> p1" and "0 \<le> p"
  shows "min (min (a + p1) (max a N) + p) (max (min (a + p1) (max a N)) N)
       = min (a + p1 + p) (max a N)"
  using assms by (simp add: min_def max_def)

lemma run_counted:
  assumes "absent s" and "counted r s" and "collectorAbsent es" and "run es s = Some (Inr s')"
  shows "counted r s'
     \<and> int (attempts s') = min (int (attempts s) + int (polls es))
         (max (int (attempts s)) (max 1 r))"
  using assms
proof (induction es arbitrary: s)
  case Nil
  then show ?case by simp
next
  case (Cons e es)
  let ?N = "max 1 r"
  from Cons.prems(3) have a1: "collectorAbsent [e]" and a2: "collectorAbsent es"
    using collectorAbsent_Cons [of e es] by simp_all
  from step_absent [OF Cons.prems(1) a1]
  obtain s1 where s1: "step e s = Some (Inr s1)" and k1: "keeps s [e] s1"
    by blast
  then have ab1: "absent s1" by (simp add: keeps_def)
  from step_counted [OF Cons.prems(1,2) a1 s1]
  have c1: "counted r s1"
    and n1: "int (attempts s1) = min (int (attempts s) + int (polls [e])) (max (int (attempts s)) ?N)"
    by blast+
  from Cons.prems(4) s1 have r1: "run es s1 = Some (Inr s')" by simp
  from Cons.IH [OF ab1 c1 a2 r1]
  have c': "counted r s'"
    and n': "int (attempts s') = min (int (attempts s1) + int (polls es)) (max (int (attempts s1)) ?N)"
    by blast+
  have "int (attempts s')
      = min (min (int (attempts s) + int (polls [e])) (max (int (attempts s)) ?N)
               + int (polls es))
          (max (min (int (attempts s) + int (polls [e])) (max (int (attempts s)) ?N)) ?N)"
    by (simp only: n' n1)
  also have "\<dots> = min (int (attempts s) + int (polls [e]) + int (polls es))
      (max (int (attempts s)) ?N)"
    by (rule budget_step) simp_all
  also have "int (attempts s) + int (polls [e]) + int (polls es)
      = int (attempts s) + int (polls (e # es))"
    by (simp only: polls_Cons [of e es] of_nat_add add.assoc)
  finally show ?case using c' by blast
qed

text \<open>The constructor on a page without collector.\<close>

lemma mergeConfig_defaults: "\<exists>m. mergeConfig defaultConfig options = Inr (JObj m)"
  by (rule mergeConfig_total) (simp add: nullish_def defaultConfig_def)

lemma construct_absent:
  "\<exists>s0 m. construct options None clk num = Some (Inr s0)
     \<and> mergeConfig defaultConfig (defaultProperties options) = Inr (JObj m)
     \<and> config s0 = m \<and> maxAttempts s0 = readProp m ''retryAttempts''
     \<and> absent s0 \<and> checkInterval s0 \<and> attempts s0 = 0
     \<and> eventQueue s0 = [] \<and> tracked s0 = [] \<and> clock s0 = clk \<and> reads s0 = 0"
proof -
  from mergeConfig_defaults [of "defaultProperties options"]
  obtain m where "mergeConfig defaultConfig (defaultProperties options) = Inr (JObj m)" ..
  then show ?thesis
    by (simp add: construct_def init_def checkUmamiAvailable_def waitForUmami_def
        absent_def blank_def)
qed

lemma run_append:
  "run (xs @ ys) s =
     (case run xs s of None \<Rightarrow> None | Some (Inl err) \<Rightarrow> Some (Inl err)
      | Some (Inr s') \<Rightarrow> run ys s')"
  by (induction xs arbitrary: s) (auto split: option.splits sum.splits)

lemma collectorAbsent_calls: "collectorAbsent (map (\<lambda>(e, p). Call e p) post)"
  by (induction post) auto

lemma run_calls_keeps:
  assumes "\<not> initialized s"
  shows "\<exists>s'. run (map (\<lambda>(e, p). Call e p) post) s = Some (Inr s')
     \<and> eventQueue s' = eventQueue s @ calls (map (\<lambda>(e, p). Call e p) post)
     \<and> \<not> initialized s' \<and> checkInterval s' = checkInterval s \<and> umami s' = umami s
     \<and> tracked s' = tracked s \<and> clock s' = clock s \<and> reads s' = reads s"
  using assms
proof (induction post arbitrary: s)
  case Nil
  then show ?case by simp
next
  case (Cons ep post)
  obtain e p where ep: "ep = (e, p)" by (cases ep)
  let ?s1 = "s\<lparr>eventQueue := eventQueue s @ [(e, defaultProperties p)]\<rparr>"
  have "\<not> initialized ?s1" using Cons.prems by simp
  from Cons.IH [OF this] Cons.prems ep show ?case by (simp add: logEvent_enqueue)
qed

lemma tick_present:
  assumes "\<not> initialized s" and "checkInterval s" and "umami s = Some c"
  shows "\<exists>s'. step Tick s = Some (Inr s')
     \<and> tracked s' = tracked s @ deliveries (clock s) (reads s) (stringNamed (eventQueue s))
     \<and> eventQueue s' = [] \<and> initialized s' \<and> \<not> checkInterval s' \<and> listeners s'"
proof -
  let ?s1 = "s\<lparr>attempts := attempts s + 1, checkInterval := False, initialized := True\<rparr>"
  have "initialized ?s1" "umami ?s1 = Some c" "eventQueue ?s1 = eventQueue s"
    using assms by simp_all
  from processEventQueue_drains [OF this]
  obtain s2 where d: "processEventQueue ?s1 = Some (Inr s2)"
    and t: "tracked s2 = tracked ?s1 @ deliveries (clock ?s1) (reads ?s1) (stringNamed (eventQueue s))"
    and e: "eventQueue s2 = []" and g: "sameGate ?s1 s2"
    by blast
  have "step Tick s = Some (Inr (setupEventListeners s2))"
    using assms(2,3) d
    by (simp add: intervalCallback_def Let_def checkUmamiAvailable_def becomeReady_def)
  moreover have "tracked (setupEventListeners s2)
      = tracked s @ deliveries (clock s) (reads s) (stringNamed (eventQueue s))"
    using t by (simp add: setupEventListeners_def)
  moreover have "eventQueue (setupEventListeners s2) = []"
    "initialized (setupEventListeners s2)" "\<not> checkInterval (setupEventListeners s2)"
    "listeners (setupEventListeners s2)"
    using e g by (simp_all add: setupEventListeners_def sameGate_def)
  ultimately show ?thesis by blast
qed

text \<open>Equations for running the gate on given inputs.\<close>

lemma processEventQueue_step:
  "eventQueue s = entry # rest \<Longrightarrow>
   processEventQueue s =
     (case logEvent (fst entry) (snd entry) (s\<lparr>eventQueue := rest\<rparr>) of
        Inl err \<Rightarrow> Some (Inl err)
      | Inr s' \<Rightarrow> processEventQueue s')"
  by (subst processEventQueue.simps) simp

lemmas gate_eval = construct_def blank_def init_def checkUmamiAvailable_def waitForUmami_def
  logDebug_def readProp_def intervalCallback_def notLess_def becomeReady_def
  setupEventListeners_def logEvent_def dispatch_def enhance_def defaultProperties_def
  processEventQueue_Nil processEventQueue_step Let_def

text \<open>
  C1, as the claim states it, fails for an event whose name is no string: \<open>logEvent\<close>
  queues it like any other, and at the drain \<open>sanitizeEventName\<close> throws on it, so that
  it is never forwarded. Here the events \<open>a\<close>, \<open>5\<close> and \<open>b\<close> are logged before the
  collector appears, and the first poll forwards \<open>a\<close> and \<open>b\<close> only.
\<close>

theorem non_string_name_is_dropped:
  "construct (JObj []) None (\<lambda>i. units ''T'' @ [48 + i]) (\<lambda>v. NaN) =
     Some (Inr \<lparr>config = ownEntries defaultConfig, initialized = False, eventQueue = [],
       attempts = 0, maxAttempts = JNum 3, checkInterval = True, listeners = False,
       umami = None, tracked = [], console = [], clock = \<lambda>i. units ''T'' @ [48 + i],
       numberOf = \<lambda>v. NaN, reads = 0\<rparr>)
   \<and> run [Call (JStr (units ''a'')) JUndefined, Call (JNum 5) JUndefined,
           Call (JStr (units ''b'')) JUndefined, Install (\<lambda>n p. False), Tick]
       \<lparr>config = ownEntries defaultConfig, initialized = False, eventQueue = [],
        attempts = 0, maxAttempts = JNum 3, checkInterval = True, listeners = False,
        umami = None, tracked = [], console = [], clock = \<lambda>i. units ''T'' @ [48 + i],
        numberOf = \<lambda>v. NaN, reads = 0\<rparr> =
     Some (Inr \<lparr>config = ownEntries defaultConfig, initialized = True, eventQueue = [],
       attempts = 1, maxAttempts = JNum 3, checkInterval = False, listeners = True,
       umami = Some (\<lambda>n p. False),
       tracked = [(units ''a'', JObj [(PName ''timestamp'', JStr (units ''T0''))]),
                  (units ''b'', JObj [(PName ''timestamp'', JStr (units ''T1''))])],
       console = [], clock = \<lambda>i. units ''T'' @ [48 + i], numberOf = \<lambda>v. NaN,
       reads = 2\<rparr>)"
  by (simp add: gate_eval merge_eval sanitize_defs)

text \<open>
  C1, amended: for every sequence of \<open>logEvent\<close> calls made while the gate is not yet
  ready, if the collector becomes present within the retry budget, that is, while the
  interval is still registered, then the next poll forwards every queued event whose name
  is a string to the collector exactly once, in the order of the calls of \<open>logEvent\<close>,
  and none of them is dropped.
\<close>

theorem queued_events_delivered_in_order:
  assumes "collectorAbsent pre"
    and "construct options None clk num = Some (Inr s0)"
    and "run pre s0 = Some (Inr s1)"
    and "checkInterval s1"
  shows "\<exists>s'. run (pre @ [Install c] @ map (\<lambda>(e, p). Call e p) post @ [Tick]) s0
         = Some (Inr s')
     \<and> tracked s' = deliveries clk 0
          (stringNamed (calls (pre @ map (\<lambda>(e, p). Call e p) post)))
     \<and> eventQueue s' = [] \<and> initialized s' \<and> \<not> checkInterval s'"
proof -
  from construct_absent [of options clk num] assms(2)
  have a0: "absent s0" and f0: "eventQueue s0 = []" "tracked s0 = []" "clock s0 = clk"
    "reads s0 = 0"
    by auto
  from run_absent [OF a0 assms(1)] assms(3) have k: "keeps s0 pre s1" by auto
  then have ni: "\<not> initialized s1" and q1: "eventQueue s1 = calls pre"
    and f1: "tracked s1 = []" "clock s1 = clk" "reads s1 = 0"
    using f0 by (simp_all add: keeps_def absent_def)
  let ?posts = "map (\<lambda>(e, p). Call e p) post"
  let ?s2 = "s1\<lparr>umami := Some c\<rparr>"
  have "\<not> initialized ?s2" using ni by simp
  from run_calls_keeps [OF this, of post]
  obtain s3 where r3: "run ?posts ?s2 = Some (Inr s3)"
    and q3: "eventQueue s3 = eventQueue ?s2 @ calls ?posts"
    and g3: "\<not> initialized s3" "checkInterval s3 = checkInterval ?s2" "umami s3 = umami ?s2"
      "tracked s3 = tracked ?s2" "clock s3 = clock ?s2" "reads s3 = reads ?s2"
    by blast
  have "checkInterval s3" "umami s3 = Some c" using g3 assms(4) by simp_all
  from tick_present [OF g3(1) this]
  obtain s' where t: "step Tick s3 = Some (Inr s')"
    and res: "tracked s' = tracked s3 @ deliveries (clock s3) (reads s3) (stringNamed (eventQueue s3))"
      "eventQueue s' = []" "initialized s'" "\<not> checkInterval s'"
    by blast
  have "run (pre @ [Install c] @ ?posts @ [Tick]) s0 = Some (Inr s')"
    using assms(3) r3 t by (simp add: run_append)
  moreover have "tracked s' = deliveries clk 0 (stringNamed (calls (pre @ ?posts)))"
    using res(1) g3 q3 q1 f1 by (simp add: calls_append)
  ultimately show ?thesis using res by blast
qed

theorem queued_events_delivered_in_order_witness:
  "collectorAbsent
     [Call (JStr (units ''Form Submit!!'')) (JObj [(PName ''form_id'', JStr (units ''x''))]),
      Tick, Call (JNum 5) JUndefined, Call (JStr (units ''Scroll Depth'')) JUndefined]
   \<and> construct (JObj []) None (\<lambda>i. units ''T'' @ [48 + i]) (\<lambda>v. NaN) =
       Some (Inr \<lparr>config = ownEntries defaultConfig, initialized = False, eventQueue = [],
         attempts = 0, maxAttempts = JNum 3, checkInterval = True, listeners = False,
         umami = None, tracked = [], console = [], clock = \<lambda>i. units ''T'' @ [48 + i],
         numberOf = \<lambda>v. NaN, reads = 0\<rparr>)
   \<and> (\<exists>s'. run
        [Call (JStr (units ''Form Submit!!'')) (JObj [(PName ''form_id'', JStr (units ''x''))]),
         Tick, Call (JNum 5) JUndefined, Call (JStr (units ''Scroll Depth'')) JUndefined,
         Install (\<lambda>n p. False), Call (JStr (units ''late'')) JNull, Tick]
        \<lparr>config = ownEntries defaultConfig, initialized = False, eventQueue = [],
         attempts = 0, maxAttempts = JNum 3, checkInterval = True, listeners = False,
         umami = None, tracked = [], console = [], clock = \<lambda>i. units ''T'' @ [48 + i],
         numberOf = \<lambda>v. NaN, reads = 0\<rparr> = Some (Inr s')
      \<and> tracked s' =
           [(units ''form_submit_'',
             JObj [(PName ''form_id'', JStr (units ''x'')),
                   (PName ''timestamp'', JStr (units ''T0''))]),
            (units ''scroll_depth'', JObj [(PName ''timestamp'', JStr (units ''T1''))]),
            (units ''late'', JObj [(PName ''timestamp'', JStr (units ''T2''))])]
      \<and> eventQueue s' = [] \<and> initialized s' \<and> \<not> checkInterval s')"
proof -
  let ?pre = "[Call (JStr (units ''Form Submit!!'')) (JObj [(PName ''form_id'', JStr (units ''x''))]),
      Tick, Call (JNum 5) JUndefined, Call (JStr (units ''Scroll Depth'')) JUndefined]"
  let ?s0 = "\<lparr>config = ownEntries defaultConfig, initialized = False, eventQueue = [],
         attempts = 0, maxAttempts = JNum 3, checkInterval = True, listeners = False,
         umami = None, tracked = [], console = [], clock = \<lambda>i. units ''T'' @ [48 + i],
         numberOf = \<lambda>v. NaN, reads = 0\<rparr>"
  let ?s1 = "?s0\<lparr>eventQueue :=
      [(JStr (units ''Form Submit!!''), JObj [(PName ''form_id'', JStr (units ''x''))]),
       (JNum 5, JObj []), (JStr (units ''Scroll Depth''), JObj [])], attempts := 1\<rparr>"
  have a: "collectorAbsent ?pre" by simp
  have c: "construct (JObj []) None (\<lambda>i. units ''T'' @ [48 + i]) (\<lambda>v. NaN) = Some (Inr ?s0)"
    by (simp add: gate_eval merge_eval)
  have r: "run ?pre ?s0 = Some (Inr ?s1)"
    by (simp add: gate_eval)
  have i: "checkInterval ?s1" by simp
  from queued_events_delivered_in_order [OF a c r i, of "\<lambda>n p. False"
      "[(JStr (units ''late''), JNull)]"]
  show ?thesis using a c by (simp add: sanitize_defs enhance_def defaultProperties_def)
qed

text \<open>
  C6, as the claim states it, fails for \<open>retryAttempts = 0\<close>: the interval is registered
  all the same, and its first firing makes one poll before it is cancelled.
\<close>

theorem zero_retryAttempts_polls_once:
  "construct (JObj [(PName ''retryAttempts'', JNum 0)]) None (\<lambda>i. []) (\<lambda>v. NaN) =
     Some (Inr \<lparr>config = AList.update (PName ''retryAttempts'') (JNum 0) (ownEntries defaultConfig),
       initialized = False, eventQueue = [], attempts = 0, maxAttempts = JNum 0,
       checkInterval = True, listeners = False, umami = None, tracked = [], console = [],
       clock = \<lambda>i. [], numberOf = \<lambda>v. NaN, reads = 0\<rparr>)
   \<and> run [Tick]
       \<lparr>config = AList.update (PName ''retryAttempts'') (JNum 0) (ownEntries defaultConfig),
        initialized = False, eventQueue = [], attempts = 0, maxAttempts = JNum 0,
        checkInterval = True, listeners = False, umami = None, tracked = [], console = [],
        clock = \<lambda>i. [], numberOf = \<lambda>v. NaN, reads = 0\<rparr> =
     Some (Inr \<lparr>config = AList.update (PName ''retryAttempts'') (JNum 0) (ownEntries defaultConfig),
       initialized = False, eventQueue = [], attempts = 1, maxAttempts = JNum 0,
       checkInterval = False, listeners = False, umami = None, tracked = [], console = [],
       clock = \<lambda>i. [], numberOf = \<lambda>v. NaN, reads = 0\<rparr>)
   \<and> readProp (AList.update (PName ''retryAttempts'') (JNum 0) (ownEntries defaultConfig))
         ''retryAttempts'' = JNum 0"
  by (simp add: gate_eval merge_eval)

text \<open>
  Nor is there a bound when \<open>retryAttempts\<close> is no number. The override
  \<open>{retryAttempts: null}\<close> leaves the empty object in the configuration (C10), which
  \<open>>=\<close> turns into \<open>NaN\<close>: the test \<open>attempts >= maxAttempts\<close> is never true, the interval
  is never cancelled, and every firing is a poll.
\<close>

lemma run_unbounded:
  assumes "absent s" and "checkInterval s" and "toNumber (numberOf s) (maxAttempts s) = NaN"
    and "collectorAbsent es" and "run es s = Some (Inr s')"
  shows "checkInterval s' \<and> attempts s' = attempts s + polls es"
  using assms
proof (induction es arbitrary: s)
  case Nil
  then show ?case by simp
next
  case (Cons e es)
  from Cons.prems(4) have a1: "collectorAbsent [e]" and a2: "collectorAbsent es"
    using collectorAbsent_Cons [of e es] by simp_all
  from step_absent [OF Cons.prems(1) a1]
  obtain s1 where s1: "step e s = Some (Inr s1)" and k1: "keeps s [e] s1"
    by blast
  then have ab1: "absent s1" and n1: "toNumber (numberOf s1) (maxAttempts s1) = NaN"
    using Cons.prems(3) by (simp_all add: keeps_def)
  from Cons.prems(1) have u: "umami s = None" and ni: "\<not> initialized s"
    by (simp_all add: absent_def)
  have c1: "checkInterval s1 \<and> attempts s1 = attempts s + polls [e]"
  proof (cases e)
    case Tick
    with s1 Cons.prems(2,3) intervalCallback_absent [OF u] show ?thesis
      by (auto simp: notLess_def)
  next
    case (Call ev p)
    with s1 ni Cons.prems(2) show ?thesis by (auto simp: logEvent_enqueue)
  next
    case (Install c)
    with a1 show ?thesis by simp
  qed
  from Cons.prems(5) s1 have "run es s1 = Some (Inr s')" by simp
  from Cons.IH [OF ab1 _ n1 a2 this] c1 polls_Cons [of e es] show ?case by simp
qed

lemma null_retryAttempts_never_cancels:
  assumes "collectorAbsent es"
  shows "\<exists>s0 s'. construct (JObj [(PName ''retryAttempts'', JNull)]) None clk num = Some (Inr s0)
     \<and> run es s0 = Some (Inr s') \<and> maxAttempts s0 = JObj []
     \<and> checkInterval s' \<and> attempts s' = polls es"
proof -
  from construct_absent [of "JObj [(PName ''retryAttempts'', JNull)]" clk num]
  obtain s0 m where c0: "construct (JObj [(PName ''retryAttempts'', JNull)]) None clk num
      = Some (Inr s0)"
    and m: "mergeConfig defaultConfig (defaultProperties (JObj [(PName ''retryAttempts'', JNull)]))
      = Inr (JObj m)"
    and f0: "maxAttempts s0 = readProp m ''retryAttempts''" "absent s0" "checkInterval s0"
      "attempts s0 = 0"
    by blast
  from m have "readProp m ''retryAttempts'' = JObj []"
    by (auto simp: merge_eval defaultProperties_def readProp_def)
  with f0 have n: "maxAttempts s0 = JObj []" by simp
  then have nan: "toNumber (numberOf s0) (maxAttempts s0) = NaN" by simp
  from run_absent [OF f0(2) assms]
  obtain s' where r: "run es s0 = Some (Inr s')" by blast
  from run_unbounded [OF f0(2,3) nan assms r] f0(4) c0 r n show ?thesis by auto
qed

text \<open>
  C6, amended: if the collector never becomes present, then \<open>track\<close> is never called,
  nothing is thrown, and every call of \<open>logEvent\<close> only enqueues; and if the
  \<open>retryAttempts\<close> of the configuration in force is an integer \<open>r\<close>, then the interval
  makes \<open>max 1 r\<close> polls at most, is registered exactly until the last of them and is
  never fired after it.
\<close>

theorem collector_never_present:
  assumes "collectorAbsent es"
  shows "\<exists>s0 s'. construct options None clk num = Some (Inr s0) \<and> run es s0 = Some (Inr s')
     \<and> tracked s' = [] \<and> \<not> initialized s' \<and> eventQueue s' = calls es
     \<and> (\<forall>r. readProp (config s0) ''retryAttempts'' = JNum r \<longrightarrow>
           int (attempts s') = min (int (polls es)) (max 1 r)
           \<and> (checkInterval s' \<longleftrightarrow> int (polls es) < max 1 r))"
proof -
  from construct_absent [of options clk num]
  obtain s0 m where c0: "construct options None clk num = Some (Inr s0)"
    and f0: "config s0 = m" "maxAttempts s0 = readProp m ''retryAttempts''" "absent s0"
      "checkInterval s0" "attempts s0 = 0" "eventQueue s0 = []" "tracked s0 = []"
    by blast
  from run_absent [OF f0(3) assms]
  obtain s' where r: "run es s0 = Some (Inr s')" and k: "keeps s0 es s'"
    by blast
  from k f0 have g: "tracked s' = []" "\<not> initialized s'" "eventQueue s' = calls es"
    by (simp_all add: keeps_def absent_def)
  have "int (attempts s') = min (int (polls es)) (max 1 r)
      \<and> (checkInterval s' \<longleftrightarrow> int (polls es) < max 1 r)"
    if "readProp (config s0) ''retryAttempts'' = JNum r" for r
  proof -
    from that f0 have "counted r s0" by (simp add: counted_def)
    from run_counted [OF f0(3) this assms r] f0(5)
    have c: "counted r s'" and a: "int (attempts s') = min (int (polls es)) (max 1 r)"
      by simp_all
    from c have "checkInterval s' \<longleftrightarrow> int (attempts s') < max 1 r"
      by (simp add: counted_def)
    then have "checkInterval s' \<longleftrightarrow> int (polls es) < max 1 r"
      unfolding a by (simp add: min_less_iff_disj)
    with a show ?thesis by simp
  qed
  with c0 r g show ?thesis by blast
qed

theorem collector_never_present_witness:
  "collectorAbsent [Call (JNum 5) JUndefined, Tick, Tick, Tick, Tick, Call JNull JNull]
   \<and> (\<exists>s0 s'.
        construct (JObj [(PName ''debug'', JBool True)]) None (\<lambda>i. []) (\<lambda>v. NaN) = Some (Inr s0)
      \<and> run [Call (JNum 5) JUndefined, Tick, Tick, Tick, Tick, Call JNull JNull] s0
           = Some (Inr s')
      \<and> readProp (config s0) ''retryAttempts'' = JNum 3
      \<and> attempts s' = 3 \<and> \<not> checkInterval s' \<and> tracked s' = [] \<and> \<not> initialized s'
      \<and> eventQueue s' = [(JNum 5, JObj []), (JNull, JNull)])"
proof -
  let ?es = "[Call (JNum 5) JUndefined, Tick, Tick, Tick, Tick, Call JNull JNull]"
  have a: "collectorAbsent ?es" by simp
  from collector_never_present [OF a, of "JObj [(PName ''debug'', JBool True)]" "\<lambda>i. []" "\<lambda>v. NaN"]
  obtain s0 s' where c: "construct (JObj [(PName ''debug'', JBool True)]) None (\<lambda>i. []) (\<lambda>v. NaN)
      = Some (Inr s0)"
    and r: "run ?es s0 = Some (Inr s')"
    and g: "tracked s' = []" "\<not> initialized s'" "eventQueue s' = calls ?es"
    and n: "\<And>r. readProp (config s0) ''retryAttempts'' = JNum r \<Longrightarrow>
           int (attempts s') = min (int (polls ?es)) (max 1 r)
           \<and> (checkInterval s' \<longleftrightarrow> int (polls ?es) < max 1 r)"
    by blast
  from c have three: "readProp (config s0) ''retryAttempts'' = JNum 3"
    by (auto simp: gate_eval merge_eval)
  from n [OF three] have "attempts s' = 3" "\<not> checkInterval s'" by simp_all
  with a c r g three show ?thesis by (auto simp: defaultProperties_def)
qed

lemma map_of_enhance:
  "enhance (JObj ps) t = JObj m \<Longrightarrow> map_of m = (map_of ps)(PName ''timestamp'' \<mapsto> JStr t)"
  by (auto simp: enhance_def update_conv')

text \<open>
  C9: once the gate is ready and the collector is there, the properties that
  \<open>logEvent\<close> forwards are the caller's mapping with \<open>timestamp\<close> bound to the reading
  of the clock made at this dispatch: a \<open>timestamp\<close> of the caller is overridden, and
  every other key keeps the caller's value.
\<close>

theorem timestamp_overrides:
  assumes "initialized s" and "umami s = Some c"
  shows "\<exists>s' m. logEvent (JStr n) (JObj ps) s = Inr s'
     \<and> tracked s' = tracked s @ [(sanitizeEventName n, JObj m)]
     \<and> map_of m = (map_of ps)(PName ''timestamp'' \<mapsto> JStr (clock s (reads s)))
     \<and> reads s' = Suc (reads s)"
proof -
  from logEvent_ready [OF assms, of n "JObj ps"]
  obtain msg where "logEvent (JStr n) (JObj ps) s
      = Inr (logDebug msg (delivered n (JObj ps) s))"
    by (auto simp: defaultProperties_def)
  moreover obtain m where m: "enhance (JObj ps) (clock s (reads s)) = JObj m"
    by (simp add: enhance_def)
  moreover have "tracked (logDebug msg (delivered n (JObj ps) s))
      = tracked s @ [(sanitizeEventName n, JObj m)]"
    using m by (simp add: delivered_def)
  moreover have "reads (logDebug msg (delivered n (JObj ps) s)) = Suc (reads s)"
    by (simp add: delivered_def)
  ultimately show ?thesis using map_of_enhance [OF m] by blast
qed

theorem timestamp_overrides_witness:
  "initialized \<lparr>config = ownEntries defaultConfig, initialized = True,
       eventQueue = [], attempts = 0, maxAttempts = JUndefined, checkInterval = False,
       listeners = True, umami = Some (\<lambda>n p. False), tracked = [], console = [],
       clock = \<lambda>i. units ''2026-01-01T00:00:00.000Z'', numberOf = \<lambda>v. NaN, reads = 0\<rparr>
   \<and> (\<exists>s' m. logEvent (JStr (units ''form_submit''))
          (JObj [(PName ''timestamp'', JStr (units ''mine'')), (PName ''form_id'', JNum 7)])
          \<lparr>config = ownEntries defaultConfig, initialized = True,
           eventQueue = [], attempts = 0, maxAttempts = JUndefined, checkInterval = False,
           listeners = True, umami = Some (\<lambda>n p. False), tracked = [], console = [],
           clock = \<lambda>i. units ''2026-01-01T00:00:00.000Z'', numberOf = \<lambda>v. NaN,
           reads = 0\<rparr> = Inr s'
      \<and> tracked s' = [(sanitizeEventName (units ''form_submit''), JObj m)]
      \<and> map_of m (PName ''timestamp'') = Some (JStr (units ''2026-01-01T00:00:00.000Z''))
      \<and> map_of m (PName ''form_id'') = Some (JNum 7)
      \<and> reads s' = 1)"
proof -
  let ?s = "\<lparr>config = ownEntries defaultConfig, initialized = True,
       eventQueue = [], attempts = 0, maxAttempts = JUndefined, checkInterval = False,
       listeners = True, umami = Some (\<lambda>n p. False), tracked = [], console = [],
       clock = \<lambda>i. units ''2026-01-01T00:00:00.000Z'', numberOf = \<lambda>v. NaN, reads = 0\<rparr>"
  have i: "initialized ?s" and u: "umami ?s = Some (\<lambda>n p. False)" by simp_all
  from timestamp_overrides [OF i u, of "units ''form_submit''"
      "[(PName ''timestamp'', JStr (units ''mine'')), (PName ''form_id'', JNum 7)]"]
  obtain s' m where "logEvent (JStr (units ''form_submit''))
        (JObj [(PName ''timestamp'', JStr (units ''mine'')), (PName ''form_id'', JNum 7)]) ?s
        = Inr s'"
    and "tracked s' = [(sanitizeEventName (units ''form_submit''), JObj m)]"
    and m: "map_of m = (map_of [(PName ''timestamp'', JStr (units ''mine'')),
        (PName ''form_id'', JNum 7)])(PName ''timestamp'' \<mapsto>
          JStr (clock ?s (reads ?s)))"
    and "reads s' = Suc (reads ?s)"
    by auto
  moreover from m have "map_of m (PName ''timestamp'') = Some (JStr (units ''2026-01-01T00:00:00.000Z''))"
    and "map_of m (PName ''form_id'') = Some (JNum 7)"
    by simp_all
  ultimately show ?thesis using i by auto
qed

section \<open>Properties of the scroll tracker\<close>

lemma fold_visit:
  "fold (visit p) ts tr =
     tr\<lparr>reached := reached tr \<union> set (fresh p ts (reached tr)),
        fired := fired tr @ fresh p ts (reached tr)\<rparr>"
  by (induction ts arbitrary: tr) (simp_all add: visit_def)

lemma pass_fields:
  "reached (pass p ts tr) = reached tr \<union> set (fresh p ts (reached tr))"
  "fired (pass p ts tr) = fired tr @ fresh p ts (reached tr)"
  "scrollEventAttached (pass p ts tr) = scrollEventAttached tr"
  "onceListener (pass p ts tr) = onceListener tr"
  by (simp_all add: pass_def fold_visit)

lemma set_fresh: "set (fresh p ts R) = {t \<in> set ts. jsGe p t \<and> t \<notin> R}"
  by (induction ts arbitrary: R) auto

lemma distinct_fresh: "distinct (fresh p ts R)"
  by (induction ts arbitrary: R) (auto simp: set_fresh)

lemma sorted_fresh: "sorted ts \<Longrightarrow> sorted (fresh p ts R)"
  by (induction ts arbitrary: R) (auto simp: set_fresh)

text \<open>For distinct thresholds, what a pass fires is the filtered list of the thresholds.\<close>

lemma fresh_filter:
  "distinct ts \<Longrightarrow> fresh p ts R = filter (\<lambda>t. jsGe p t \<and> t \<notin> R) ts"
proof (induction ts arbitrary: R)
  case Nil
  then show ?case by simp
next
  case (Cons t ts)
  then have "filter (\<lambda>x. jsGe p x \<and> x \<notin> insert t R) ts = filter (\<lambda>x. jsGe p x \<and> x \<notin> R) ts"
    by (intro filter_cong) auto
  with Cons show ?case by simp
qed

lemma jsGe_separates: "jsGe p f \<Longrightarrow> \<not> jsGe p t \<Longrightarrow> f < t"
  by (cases p) simp_all

lemma orderly_pass:
  assumes "sorted ts" and "orderly ts tr"
  shows "orderly ts (pass p ts tr)"
proof -
  let ?new = "fresh p ts (reached tr)"
  from assms(2) have r: "reached tr = set (fired tr)" and s: "sorted (fired tr)"
    and d: "distinct (fired tr)"
    and c: "\<And>f t. f \<in> set (fired tr) \<Longrightarrow> t \<in> set ts \<Longrightarrow> t \<notin> reached tr \<Longrightarrow> f < t"
    unfolding orderly_def by blast+
  have new: "\<And>t. t \<in> set ?new \<longleftrightarrow> t \<in> set ts \<and> jsGe p t \<and> t \<notin> reached tr"
    by (simp add: set_fresh)
  have "sorted (fired tr @ ?new)"
    using s sorted_fresh [OF assms(1)] c new by (fastforce simp: sorted_append)
  moreover have "distinct (fired tr @ ?new)"
    using d distinct_fresh [of p ts "reached tr"] new r by auto
  moreover have "f < t" if "f \<in> set (fired tr @ ?new)" "t \<in> set ts"
    "t \<notin> reached tr \<union> set ?new" for f t
  proof (cases "f \<in> set (fired tr)")
    case True
    with c that show ?thesis by simp
  next
    case False
    with that(1) have "jsGe p f" using new by simp
    moreover from that(2,3) new have "\<not> jsGe p t" by auto
    ultimately show ?thesis by (rule jsGe_separates)
  qed
  ultimately show ?thesis
    unfolding orderly_def pass_fields using r by auto
qed

lemma orderly_flags:
  "orderly ts (tr\<lparr>scrollEventAttached := b\<rparr>) = orderly ts tr"
  "orderly ts (tr\<lparr>onceListener := b\<rparr>) = orderly ts tr"
  by (simp_all add: orderly_def)

lemma orderly_step:
  assumes "sorted ts" and "orderly ts tr"
  shows "orderly ts (scrollStep ts ev tr)"
proof -
  have h: "orderly ts (handleScroll ts x tr')" if "orderly ts tr'" for x tr'
    using orderly_pass [OF assms(1) that] by (simp add: handleScroll_def)
  have a: "orderly ts (attachScrollHandler ts x tr')" if "orderly ts tr'" for x tr'
    using that h [of "tr'\<lparr>scrollEventAttached := True\<rparr>" x]
    by (simp add: attachScrollHandler_def orderly_flags)
  show ?thesis
  proof (cases ev)
    case (Deferred x)
    with a [OF assms(2)] assms(2) show ?thesis by (simp add: deferredCheck_def Let_def)
  next
    case (Scroll x)
    have "orderly ts (if onceListener tr then
        attachScrollHandler ts x (tr\<lparr>onceListener := False\<rparr>) else tr)"
      using a [of "tr\<lparr>onceListener := False\<rparr>" x] assms(2) by (simp add: orderly_flags)
    with h Scroll show ?thesis by (simp add: onScroll_def Let_def)
  qed
qed

lemma orderly_run:
  assumes "sorted ts" and "orderly ts tr"
  shows "orderly ts (scrollRun ts evs tr)"
  using assms(2) unfolding scrollRun_def
  by (induction evs arbitrary: tr) (simp_all add: orderly_step [OF assms(1)])

lemma orderly_new: "orderly ts newTracker"
  by (simp add: orderly_def newTracker_def)

lemmas scroll_eval = scrollRun_def onScroll_def deferredCheck_def attachScrollHandler_def
  handleScroll_def pass_def visit_def newTracker_def Let_def

text \<open>
  C7: for thresholds configured in ascending order, over any sequence of deferred checks
  and scroll events of a page load every threshold fires at most once and the thresholds
  fire in ascending order; \<open>handleScroll\<close> is one pass at the rounded percentage; and a
  pass at a rounded percentage \<open>p\<close> fires exactly the thresholds \<open>t\<close> not yet fired with
  \<open>p \<ge> t\<close>, once each, in ascending order.
\<close>

theorem thresholds_fire_once_ascending:
  assumes "sorted thresholds"
  shows "distinct (fired (scrollRun thresholds evs newTracker))
     \<and> sorted (fired (scrollRun thresholds evs newTracker))
     \<and> handleScroll thresholds x (scrollRun thresholds evs newTracker)
         = pass (mathRound x) thresholds (scrollRun thresholds evs newTracker)
     \<and> (\<exists>new. fired (pass p thresholds (scrollRun thresholds evs newTracker))
            = fired (scrollRun thresholds evs newTracker) @ new
          \<and> distinct new \<and> sorted new
          \<and> set new = {t \<in> set thresholds.
               jsGe p t \<and> t \<notin> set (fired (scrollRun thresholds evs newTracker))})"
proof -
  let ?tr = "scrollRun thresholds evs newTracker"
  have o: "orderly thresholds ?tr" by (rule orderly_run [OF assms orderly_new])
  then have r: "reached ?tr = set (fired ?tr)" by (simp add: orderly_def)
  have "fired (pass p thresholds ?tr) = fired ?tr @ fresh p thresholds (reached ?tr)"
    by (simp add: pass_fields)
  moreover have "set (fresh p thresholds (reached ?tr))
      = {t \<in> set thresholds. jsGe p t \<and> t \<notin> set (fired ?tr)}"
    by (simp add: set_fresh r)
  moreover have "handleScroll thresholds x ?tr = pass (mathRound x) thresholds ?tr"
    by (simp add: handleScroll_def)
  ultimately show ?thesis
    using o distinct_fresh [of p thresholds "reached ?tr"] sorted_fresh [OF assms, of p "reached ?tr"]
    unfolding orderly_def by blast
qed

theorem thresholds_fire_once_ascending_witness:
  "sorted [25, 50, 75 :: int]
   \<and> fired (pass (Fin 80) [25, 50, 75] newTracker) = [25, 50, 75]
   \<and> fired (handleScroll [25, 50, 75] (Fin 80) newTracker) = [25, 50, 75]
   \<and> distinct (fired (scrollRun [25, 50, 75] [Scroll (Fin 30), Scroll (Fin 80), Scroll (Fin 30)]
        newTracker))
   \<and> sorted (fired (scrollRun [25, 50, 75] [Scroll (Fin 30), Scroll (Fin 80), Scroll (Fin 30)]
        newTracker))"
proof -
  have s: "sorted [25, 50, 75 :: int]" by simp
  have "fired (pass (Fin 80) [25, 50, 75] newTracker) = [25, 50, 75]"
    and "fired (handleScroll [25, 50, 75] (Fin 80) newTracker) = [25, 50, 75]"
    by (simp_all add: scroll_eval)
  with s thresholds_fire_once_ascending [OF s, of
      "[Scroll (Fin 30), Scroll (Fin 80), Scroll (Fin 30)]"]
  show ?thesis by blast
qed

text \<open>
  C8 on the code: the deferred check compares the percentage with the constant 25, not
  with the lowest configured threshold. With the thresholds 20, 50, 80 and the page at
  22 per cent, past the lowest threshold, it attaches the listener and fires 20; with the
  thresholds 50, 75 and the page at 30 per cent, below the lowest threshold, it attaches
  nothing. (A page of client height 500 and scroll height 1500 is at 22 per cent when
  scrolled by 220 and at 30 per cent when scrolled by 300; both doubles are exact.)
\<close>

theorem deferredCheck_compares_with_25:
  "lowestThreshold [20, 50, 80] = 20
   \<and> deferredCheck [20, 50, 80] (Fin 22) newTracker
      = \<lparr>reached = {20}, scrollEventAttached = True, onceListener = True, fired = [20]\<rparr>
   \<and> lowestThreshold [50, 75] = 50
   \<and> deferredCheck [50, 75] (Fin 30) newTracker
      = \<lparr>reached = {}, scrollEventAttached = False, onceListener = True, fired = []\<rparr>"
  by (simp add: scroll_eval lowestThreshold_def)

end
